theory Spec2Isabelle
  imports Main
begin


section \<open>Python values and exceptions\<close>

text \<open>
  The values an actor's \<open>execute\<close> can hand back to a group. The group only ever looks
  at their truth value, through Python's \<open>all\<close>.
\<close>

datatype pyval = PNone | PBool bool | PInt int | PStr string | PList "pyval list"

fun truthy :: "pyval \<Rightarrow> bool" where
  "truthy PNone = False"
| "truthy (PBool b) = b"
| "truthy (PInt i) = (i \<noteq> 0)"
| "truthy (PStr s) = (s \<noteq> [])"
| "truthy (PList xs) = (xs \<noteq> [])"

text \<open>Python's builtin \<open>all\<close>: stops at the first element that is not truthy.\<close>

fun py_all :: "pyval list \<Rightarrow> bool" where
  "py_all [] = True"
| "py_all (x # xs) = (if truthy x then py_all xs else False)"

text \<open>
  The exceptions the modelled code raises or lets through: the three classes of
  \<open>kingpin.actors.exceptions\<close> it names, the builtin errors of the conversions it
  performs, and the failure of a call to an external service (boto, HTTP).
\<close>

datatype exn =
    InvalidCredentials
  | InvalidOptions
  | UnrecoverableActorFailure
  | ReError
  | ValueError
  | TypeError
  | ExternalError string

section \<open>Coroutines\<close>

text \<open>
  Every \<open>execute\<close> is a Tornado coroutine. Calling it runs its body up to the first
  suspension and hands back a future; the future is either resolved (with a value or
  with a captured exception) or suspended, and a suspended future, when the loop resumes
  it in some state of the outside world, changes that world and goes on as another
  future.
\<close>

datatype 'w future =
    Done "exn + pyval"
  | Pending "'w \<Rightarrow> 'w" "'w \<Rightarrow> 'w future"

record 'w actor =
  desc :: string
  dry :: bool
  execute :: "'w \<Rightarrow> 'w \<times> 'w future"

text \<open>
  \<open>ret = yield fut\<close> in a coroutine that is the only runnable task: the future is
  resumed until it is resolved, and its result (or its exception) comes back.
\<close>

primrec await :: "'w future \<Rightarrow> 'w \<Rightarrow> (exn + pyval) \<times> 'w" where
  "await (Done r) w = (r, w)"
| "await (Pending f k) w = await (k w) (f w)"

text \<open>Calling \<open>execute\<close> and yielding its future at once, as \<open>Sync\<close> does.\<close>

definition call_and_wait :: "'w actor \<Rightarrow> 'w \<Rightarrow> (exn + pyval) \<times> 'w" where
  "call_and_wait act w = (case execute act w of (w1, fut) \<Rightarrow> await fut w1)"

section \<open>group.py\<close>

datatype log_entry = Beginning string | Finished string pyval

type_synonym 'w gstate = "log_entry list \<times> 'w"

text \<open>
  \<open>BaseGroupActor._execute\<close>: yields what the subclass's \<open>_run_actions\<close> returns and
  returns \<open>all(ret)\<close>; an exception of \<open>_run_actions\<close> passes through.
\<close>

definition BaseGroupActor_execute ::
  "('s \<Rightarrow> (exn + pyval list) \<times> 's) \<Rightarrow> 's \<Rightarrow> (exn + pyval) \<times> 's" where
  "BaseGroupActor_execute run_actions st =
     (case run_actions st of
        (Inl e, st') \<Rightarrow> (Inl e, st')
      | (Inr ret, st') \<Rightarrow> (Inr (PBool (py_all ret)), st'))"

text \<open>
  \<open>Sync._run_actions\<close>: the loop over \<open>self._actions\<close> with its accumulator
  \<open>returns\<close>. The two debug lines are kept as the group's log. An exception raised at
  the \<open>yield\<close> leaves the loop and the method.
\<close>

fun Sync_loop ::
  "'w actor list \<Rightarrow> pyval list \<Rightarrow> 'w gstate \<Rightarrow> (exn + pyval list) \<times> 'w gstate" where
  "Sync_loop [] returns st = (Inr returns, st)"
| "Sync_loop (act # acts) returns (lg, w) =
     (case call_and_wait act w of
        (Inl e, w') \<Rightarrow> (Inl e, (lg @ [Beginning (desc act)], w'))
      | (Inr ret, w') \<Rightarrow>
          Sync_loop acts (returns @ [ret])
            (lg @ [Beginning (desc act), Finished (desc act) ret], w'))"

definition Sync_run_actions ::
  "'w actor list \<Rightarrow> 'w gstate \<Rightarrow> (exn + pyval list) \<times> 'w gstate" where
  "Sync_run_actions actions st = Sync_loop actions [] st"

definition Sync_execute ::
  "'w actor list \<Rightarrow> 'w gstate \<Rightarrow> (exn + pyval) \<times> 'w gstate" where
  "Sync_execute actions = BaseGroupActor_execute (Sync_run_actions actions)"

text \<open>
  \<open>Async._run_actions\<close>, first half: the loop that calls every \<open>execute\<close> and keeps
  the futures. Nothing is yielded in this loop, so the calls follow each other.
\<close>

fun start_all :: "'w actor list \<Rightarrow> 'w future list \<Rightarrow> 'w \<Rightarrow> 'w future list \<times> 'w" where
  "start_all [] executions w = (executions, w)"
| "start_all (act # acts) executions w =
     (case execute act w of (w1, fut) \<Rightarrow> start_all acts (executions @ [fut]) w1)"

fun is_done :: "'w future \<Rightarrow> bool" where
  "is_done (Done r) = True"
| "is_done (Pending f k) = False"

text \<open>
  The results of a list of resolved futures, read in list order: the first captured
  exception is raised, otherwise the list of values comes back. The results are only read
  once every future is resolved, so the last equation is never used.
\<close>

fun results_of :: "'w future list \<Rightarrow> exn + pyval list" where
  "results_of [] = Inr []"
| "results_of (Done (Inl e) # fs) = Inl e"
| "results_of (Done (Inr v) # fs) =
     (case results_of fs of Inl e \<Rightarrow> Inl e | Inr vs \<Rightarrow> Inr (v # vs))"
| "results_of (Pending f k # fs) = results_of fs"

text \<open>Resuming the future at position \<open>i\<close> once.\<close>

definition resume :: "nat \<Rightarrow> 'w future list \<Rightarrow> 'w \<Rightarrow> 'w future list \<times> 'w" where
  "resume i futs w =
     (case futs ! i of
        Done r \<Rightarrow> (futs, w)
      | Pending f k \<Rightarrow> (futs[i := k w], f w))"

definition pending_positions :: "'w future list \<Rightarrow> nat list" where
  "pending_positions futs = filter (\<lambda>i. \<not> is_done (futs ! i)) [0..<length futs]"

text \<open>
  \<open>ret = yield executions\<close>: the coroutine is suspended until every future of the list
  is resolved. Which suspended future the loop resumes next is not the group's choice;
  it is given here as a schedule, one number per resumption, that picks among the futures
  still suspended. A schedule that ends while a future is suspended is a run that has not
  returned (\<open>None\<close>).
\<close>

fun wait_all ::
  "nat list \<Rightarrow> 'w future list \<Rightarrow> 'w \<Rightarrow> ((exn + pyval list) \<times> 'w) option" where
  "wait_all [] futs w =
     (if list_all is_done futs then Some (results_of futs, w) else None)"
| "wait_all (c # sched) futs w =
     (if list_all is_done futs then Some (results_of futs, w)
      else let ps = pending_positions futs;
               i = ps ! (c mod length ps)
           in case resume i futs w of (futs', w') \<Rightarrow> wait_all sched futs' w')"

definition Async_run_actions ::
  "nat list \<Rightarrow> 'w actor list \<Rightarrow> 'w \<Rightarrow> ((exn + pyval list) \<times> 'w) option" where
  "Async_run_actions sched actions w =
     (case start_all actions [] w of (executions, w1) \<Rightarrow> wait_all sched executions w1)"

definition Async_execute ::
  "nat list \<Rightarrow> 'w actor list \<Rightarrow> 'w \<Rightarrow> ((exn + pyval) \<times> 'w) option" where
  "Async_execute sched actions w =
     (case Async_run_actions sched actions w of
        None \<Rightarrow> None
      | Some (Inl e, w') \<Rightarrow> Some (Inl e, w')
      | Some (Inr ret, w') \<Rightarrow> Some (Inr (PBool (py_all ret)), w'))"

subsection \<open>What the children do, as the statements about groups need it\<close>

text \<open>
  A future resolves to \<open>v\<close> when, however the outside world looks each time it is
  resumed, it ends resolved with the value \<open>v\<close>. An actor returns \<open>v\<close> when the
  future of its \<open>execute\<close> always resolves to \<open>v\<close>.
\<close>

inductive resolves_to :: "'w future \<Rightarrow> pyval \<Rightarrow> bool" where
  resolved: "resolves_to (Done (Inr v)) v"
| suspended: "(\<And>w. resolves_to (k w) v) \<Longrightarrow> resolves_to (Pending f k) v"

definition returns :: "'w actor \<Rightarrow> pyval \<Rightarrow> bool" where
  "returns act v = (\<forall>w. resolves_to (snd (execute act w)) v)"

text \<open>
  What "run to completion" says of a future, stated on its own, without \<open>await\<close>:
  resumed from the world \<open>w\<close>, again and again, each time in the world the last
  resumption left, the future ends resolved with \<open>r\<close> and leaves the world \<open>w'\<close>.
\<close>

inductive finishes :: "'w future \<Rightarrow> 'w \<Rightarrow> exn + pyval \<Rightarrow> 'w \<Rightarrow> bool" where
  already: "finishes (Done r) w r w"
| resumed: "finishes (k w) (f w) r w' \<Longrightarrow> finishes (Pending f k) w r w'"

text \<open>
  The reading of "each child once, in declaration order, each one finished before the
  next begins": the first child is called in the world \<open>w\<close>, its future is run to
  completion and returns \<open>r\<close>, leaving the world \<open>w1\<close>; the remaining children then run
  from \<open>w1\<close> in the same way. The results \<open>rs\<close> are whatever the children return,
  \<open>False\<close> included.
\<close>

inductive one_after_another :: "'w actor list \<Rightarrow> 'w \<Rightarrow> pyval list \<Rightarrow> 'w \<Rightarrow> bool" where
  none_left: "one_after_another [] w [] w"
| next_child: "execute act w = (w0, fut) \<Longrightarrow> finishes fut w0 (Inr r) w1 \<Longrightarrow>
     one_after_another acts w1 rs w' \<Longrightarrow> one_after_another (act # acts) w (r # rs) w'"

text \<open>The log of a run in which every child began and finished, in order.\<close>

fun begin_finish :: "'w actor list \<Rightarrow> pyval list \<Rightarrow> log_entry list" where
  "begin_finish (act # acts) (r # rs) =
     Beginning (desc act) # Finished (desc act) r # begin_finish acts rs"
| "begin_finish acts rs = []"

text \<open>
  Two children over a world that is a single counter: one that fails at once (returns
  \<open>False\<close>), one that suspends once before it succeeds.
\<close>

definition ex_failing :: "nat actor" where
  "ex_failing = \<lparr>desc = ''stop old release'', dry = False,
     execute = (\<lambda>w. (w + 1, Done (Inr (PBool False))))\<rparr>"

definition ex_slow :: "nat actor" where
  "ex_slow = \<lparr>desc = ''start new release'', dry = False,
     execute = (\<lambda>w. (w, Pending (\<lambda>w. w * 10) (\<lambda>w. Done (Inr (PBool True)))))\<rparr>"

section \<open>aws/elb.py\<close>

subsection \<open>The float arithmetic of \<open>p2f\<close> and \<open>_get_expected_count\<close>\<close>

text \<open>
  Python's \<open>float\<close> is the IEEE 754 double. A finite double that is not negative is
  written here as a pair \<open>(m, e)\<close> of integers and stands for \<open>m * 2 ^ e\<close>. Each
  operation is the exact operation followed by rounding to 53 significant bits, to the
  nearest double, a tie going to the even significand. Exponent limits are left out:
  the values of this module (a percentage, a number of instances, their product) are far
  from the largest and the smallest double.
\<close>

type_synonym double = "int \<times> int"

fun bit_length :: "nat \<Rightarrow> nat" where
  "bit_length n = (if n = 0 then 0 else Suc (bit_length (n div 2)))"

declare bit_length.simps [simp del]

text \<open>The integer nearest to \<open>n / d\<close>, a tie going to the even one (\<open>0 \<le> n\<close>, \<open>0 < d\<close>).\<close>

definition round_half_even :: "int \<Rightarrow> int \<Rightarrow> int" where
  "round_half_even n d =
     (let q = n div d; r = n mod d
      in if 2 * r < d then q
         else if d < 2 * r then q + 1
         else if even q then q else q + 1)"

text \<open>
  The double nearest to the fraction \<open>n / d\<close> (\<open>0 \<le> n\<close>, \<open>0 < d\<close>). With \<open>k\<close> the
  difference of the bit lengths, \<open>n / d\<close> lies between \<open>2 ^ (k - 1)\<close> and
  \<open>2 ^ (k + 1)\<close>; \<open>e\<close> is its binary exponent, and scaling by \<open>2 ^ (52 - e)\<close> brings
  it between \<open>2 ^ 52\<close> and \<open>2 ^ 53\<close>, where rounding to an integer is rounding to 53
  bits.
\<close>

definition to_double :: "int \<Rightarrow> int \<Rightarrow> double" where
  "to_double n d =
     (if n = 0 then (0, 0)
      else
        let k = int (bit_length (nat n)) - int (bit_length (nat d));
            e = (if (if 0 \<le> k then d * 2 ^ nat k \<le> n else d \<le> n * 2 ^ nat (- k))
                 then k else k - 1);
            s = 52 - e;
            m = (if 0 \<le> s then round_half_even (n * 2 ^ nat s) d
                 else round_half_even n (d * 2 ^ nat (- s)))
        in (m, - s))"

text \<open>\<open>x / c\<close> for a double \<open>x\<close> and a positive integer \<open>c\<close> that a double holds exactly.\<close>

definition double_div_int :: "double \<Rightarrow> int \<Rightarrow> double" where
  "double_div_int x c =
     (case x of (m, e) \<Rightarrow>
        if 0 \<le> e then to_double (m * 2 ^ nat e) c else to_double m (c * 2 ^ nat (- e)))"

text \<open>\<open>t * x\<close> for an integer \<open>t\<close> that a double holds exactly (\<open>0 \<le> t\<close>) and a double \<open>x\<close>.\<close>

definition int_mul_double :: "int \<Rightarrow> double \<Rightarrow> double" where
  "int_mul_double t x =
     (case x of (m, e) \<Rightarrow>
        if 0 \<le> e then to_double (t * m * 2 ^ nat e) 1 else to_double (t * m) (2 ^ nat (- e)))"

text \<open>\<open>math.ceil\<close>: the least integer not below the double, exactly.\<close>

definition math_ceil :: "double \<Rightarrow> int" where
  "math_ceil x =
     (case x of (m, e) \<Rightarrow> if 0 \<le> e then m * 2 ^ nat e else - ((- m) div 2 ^ nat (- e)))"

definition is_digit :: "char \<Rightarrow> bool" where
  "is_digit c = (c \<in> set ''0123456789'')"

definition digit_value :: "char \<Rightarrow> int" where
  "digit_value c = of_char c - 48"

definition digits_value :: "string \<Rightarrow> int" where
  "digits_value s = foldl (\<lambda>a c. 10 * a + digit_value c) 0 s"

text \<open>
  \<open>float(s)\<close> on plain decimal notation: digits, with or without a point and more
  digits, read exactly and rounded once. Every other string is refused here with
  \<open>ValueError\<close>; Python accepts besides these a sign, blanks around the number, an
  exponent, \<open>inf\<close> and \<open>nan\<close>, none of which occurs below.
\<close>

definition py_float :: "string \<Rightarrow> exn + double" where
  "py_float s =
     (let ip = takeWhile is_digit s; rest = dropWhile is_digit s
      in case rest of
           [] \<Rightarrow> if ip = [] then Inl ValueError else Inr (to_double (digits_value ip) 1)
         | c # fp \<Rightarrow>
             if c = CHR ''.'' \<and> list_all is_digit fp \<and> (ip \<noteq> [] \<or> fp \<noteq> [])
             then Inr (to_double (digits_value (ip @ fp)) (10 ^ length fp))
             else Inl ValueError)"

text \<open>\<open>int(s)\<close> on a string: decimal digits with or without a sign.\<close>

definition py_int :: "string \<Rightarrow> exn + int" where
  "py_int s =
     (case s of
        [] \<Rightarrow> Inl ValueError
      | c # ds \<Rightarrow>
          if c = CHR ''-'' \<and> ds \<noteq> [] \<and> list_all is_digit ds then Inr (- digits_value ds)
          else if c = CHR ''+'' \<and> ds \<noteq> [] \<and> list_all is_digit ds then Inr (digits_value ds)
          else if list_all is_digit s then Inr (digits_value s)
          else Inl ValueError)"

text \<open>\<open>string.strip('%')\<close>: the percent signs at both ends are taken off.\<close>

definition strip_percent :: "string \<Rightarrow> string" where
  "strip_percent s =
     rev (dropWhile (\<lambda>c. c = CHR ''%'') (rev (dropWhile (\<lambda>c. c = CHR ''%'') s)))"

text \<open>\<open>p2f\<close>: \<open>float(string.strip('%')) / 100\<close>.\<close>

definition p2f :: "string \<Rightarrow> exn + double" where
  "p2f string =
     (case py_float (strip_percent string) of
        Inl e \<Rightarrow> Inl e
      | Inr x \<Rightarrow> Inr (double_div_int x 100))"

subsection \<open>\<open>WaitUntilHealthy\<close>\<close>

text \<open>The option \<open>count\<close> is declared as \<open>(int, str)\<close>.\<close>

datatype count_option = CountInt int | CountStr string

text \<open>
  \<open>_get_expected_count\<close>. \<open>'%' in str(count)\<close> is false for an integer. The result of
  \<open>math.ceil\<close> is an integral value and is kept as an integer.
\<close>

definition get_expected_count :: "count_option \<Rightarrow> nat \<Rightarrow> exn + int" where
  "get_expected_count count total_count =
     (case count of
        CountInt n \<Rightarrow> Inr n
      | CountStr s \<Rightarrow>
          if CHR ''%'' \<in> set s
          then (case p2f s of
                  Inl e \<Rightarrow> Inl e
                | Inr p \<Rightarrow> Inr (math_ceil (int_mul_double (int total_count) p)))
          else py_int s)"

text \<open>
  What the actors of this module call outside themselves, over a world \<open>'w\<close>:
  \<open>_find_elb\<close> of the AWS base actor (not part of these sources; it reads, and raises
  when it does not find the balancer), the three boto calls on a balancer, and the sleep,
  during which the world moves on.
\<close>

record ('elb, 'w) elb_api =
  find_elb :: "string \<Rightarrow> 'w \<Rightarrow> exn + 'elb"
  get_instance_health :: "'elb \<Rightarrow> 'w \<Rightarrow> exn + string list"
  register_instances :: "'elb \<Rightarrow> string list \<Rightarrow> 'w \<Rightarrow> (exn + unit) \<times> 'w"
  deregister_instances :: "'elb \<Rightarrow> string list \<Rightarrow> 'w \<Rightarrow> (exn + unit) \<times> 'w"
  tornado_sleep :: "nat \<Rightarrow> 'w \<Rightarrow> 'w"

record WaitUntilHealthy =
  wuh_dry :: bool
  wuh_name :: string
  wuh_count :: count_option

text \<open>
  \<open>_is_healthy\<close>, on the list of instance states that \<open>elb.get_instance_health()\<close>
  answers with. Its decorators run it on the executor and log an exception before raising
  it again; neither changes what it returns or raises.
\<close>

definition is_healthy :: "('elb, 'w) elb_api \<Rightarrow> 'elb \<Rightarrow> count_option \<Rightarrow> 'w \<Rightarrow> exn + bool" where
  "is_healthy api elb count w =
     (case get_instance_health api elb w of
        Inl e \<Rightarrow> Inl e
      | Inr instance_list \<Rightarrow>
          (let total_count = length instance_list;
               in_service_count = count_list instance_list ''InService''
           in case get_expected_count count total_count of
                Inl e \<Rightarrow> Inl e
              | Inr expected_count \<Rightarrow> Inr (expected_count \<le> int in_service_count)))"

text \<open>
  The \<open>while True\<close> of \<open>WaitUntilHealthy._execute\<close>. The number carried along counts
  the evaluations of \<open>_is_healthy\<close>. A loop that goes on for ever has the value \<open>None\<close>.
\<close>

partial_function (option) WaitUntilHealthy_loop ::
  "('elb, 'w) elb_api \<Rightarrow> WaitUntilHealthy \<Rightarrow> 'elb \<Rightarrow> nat \<Rightarrow> 'w \<Rightarrow>
   ((exn + pyval) \<times> nat \<times> 'w) option" where
  "WaitUntilHealthy_loop api self elb checks w =
     (case is_healthy api elb (wuh_count self) w of
        Inl e \<Rightarrow> Some (Inl e, Suc checks, w)
      | Inr healthy \<Rightarrow>
          if healthy then Some (Inr PNone, Suc checks, w)
          else if wuh_dry self then Some (Inr PNone, Suc checks, w)
          else WaitUntilHealthy_loop api self elb (Suc checks) (tornado_sleep api 3 w))"

definition WaitUntilHealthy_execute ::
  "('elb, 'w) elb_api \<Rightarrow> WaitUntilHealthy \<Rightarrow> 'w \<Rightarrow> ((exn + pyval) \<times> nat \<times> 'w) option" where
  "WaitUntilHealthy_execute api self w =
     (case find_elb api (wuh_name self) w of
        Inl e \<Rightarrow> Some (Inl e, 0, w)
      | Inr elb \<Rightarrow> WaitUntilHealthy_loop api self elb 0 w)"

subsection \<open>\<open>RegisterInstance\<close> and \<open>DeregisterInstance\<close>\<close>

text \<open>
  The decorator \<open>@retry\<close> of the library \<open>retrying\<close>, used without arguments: it calls
  the function again after every exception, whatever the exception, without waiting and
  without a limit, and returns what the first call that does not raise returns.
\<close>

partial_function (option) retry ::
  "('w \<Rightarrow> (exn + 'a) \<times> 'w) \<Rightarrow> 'w \<Rightarrow> ((exn + 'a) \<times> 'w) option" where
  "retry f w =
     (case f w of
        (Inl e, w') \<Rightarrow> retry f w'
      | (Inr v, w') \<Rightarrow> Some (Inr v, w'))"

record RegisterInstance =
  reg_dry :: bool
  reg_elb :: string
  reg_instance_id :: pyval

record DeregisterInstance =
  dereg_dry :: bool
  dereg_elb :: string
  dereg_instance_id :: pyval

text \<open>
  \<open>RegisterInstance._add\<close> and \<open>DeregisterInstance._remove\<close>: the boto call under
  \<open>@retry\<close>. The two decorators around \<open>@retry\<close> only see what it lets out.
\<close>

definition add ::
  "('elb, 'w) elb_api \<Rightarrow> 'elb \<Rightarrow> string list \<Rightarrow> 'w \<Rightarrow> ((exn + unit) \<times> 'w) option" where
  "add api elb instances = retry (register_instances api elb instances)"

definition remove ::
  "('elb, 'w) elb_api \<Rightarrow> 'elb \<Rightarrow> string list \<Rightarrow> 'w \<Rightarrow> ((exn + unit) \<times> 'w) option" where
  "remove api elb instances = retry (deregister_instances api elb instances)"

text \<open>
  The instances as \<open>_execute\<close> prepares them: a value that is not a list is wrapped in
  one, and \<open>', '.join(instances)\<close> raises \<open>TypeError\<close> on an element that is not a
  string.
\<close>

definition as_list :: "pyval \<Rightarrow> pyval list" where
  "as_list v = (case v of PList xs \<Rightarrow> xs | _ \<Rightarrow> [v])"

fun joinable :: "pyval list \<Rightarrow> exn + string list" where
  "joinable [] = Inr []"
| "joinable (PStr s # xs) = (case joinable xs of Inl e \<Rightarrow> Inl e | Inr ss \<Rightarrow> Inr (s # ss))"
| "joinable (x # xs) = Inl TypeError"

definition RegisterInstance_execute ::
  "('elb, 'w) elb_api \<Rightarrow> RegisterInstance \<Rightarrow> 'w \<Rightarrow> ((exn + pyval) \<times> 'w) option" where
  "RegisterInstance_execute api self w =
     (case find_elb api (reg_elb self) w of
        Inl e \<Rightarrow> Some (Inl e, w)
      | Inr elb \<Rightarrow>
          (case joinable (as_list (reg_instance_id self)) of
             Inl e \<Rightarrow> Some (Inl e, w)
           | Inr instances \<Rightarrow>
               if \<not> reg_dry self
               then (case add api elb instances w of
                       None \<Rightarrow> None
                     | Some (Inl e, w') \<Rightarrow> Some (Inl e, w')
                     | Some (Inr u, w') \<Rightarrow> Some (Inr PNone, w'))
               else Some (Inr PNone, w)))"

definition DeregisterInstance_execute ::
  "('elb, 'w) elb_api \<Rightarrow> DeregisterInstance \<Rightarrow> 'w \<Rightarrow> ((exn + pyval) \<times> 'w) option" where
  "DeregisterInstance_execute api self w =
     (case find_elb api (dereg_elb self) w of
        Inl e \<Rightarrow> Some (Inl e, w)
      | Inr elb \<Rightarrow>
          (case joinable (as_list (dereg_instance_id self)) of
             Inl e \<Rightarrow> Some (Inl e, w)
           | Inr instances \<Rightarrow>
               if \<not> dereg_dry self
               then (case remove api elb instances w of
                       None \<Rightarrow> None
                     | Some (Inl e, w') \<Rightarrow> Some (Inl e, w')
                     | Some (Inr u, w') \<Rightarrow> Some (Inr PNone, w'))
               else Some (Inr PNone, w)))"

section \<open>packagecloud.py\<close>

text \<open>
  One entry of the listing that the packages API answers with, with the keys the module
  reads, and one entry of the list that \<open>_get_package_versions\<close> builds from it. A
  \<open>datetime\<close> is a number of microseconds.
\<close>

record package =
  pkg_name :: string
  pkg_created_at :: string
  pkg_distro_version :: string
  pkg_package_html_url :: string
  pkg_version :: string

record version_info =
  ver_created_at :: int
  ver_distro_version :: string
  ver_filename :: string
  ver_name :: string

text \<open>
  What the module calls outside itself, over a world \<open>'w\<close>: \<open>re.compile\<close> (\<open>None\<close>
  is \<open>re.error\<close>; a compiled pattern is taken as its \<open>match\<close> test),
  \<open>datetime.strptime\<close> with the module's one format (\<open>None\<close> is \<open>ValueError\<close>),
  \<open>datetime.now\<close>, the two HTTP calls of the REST client, and \<open>gen.sleep\<close>, during
  which the world moves on.
\<close>

record 'w packagecloud_api =
  re_compile :: "string \<Rightarrow> (string \<Rightarrow> bool) option"
  strptime :: "string \<Rightarrow> int option"
  datetime_now :: "'w \<Rightarrow> int"
  http_get_packages :: "string \<Rightarrow> 'w \<Rightarrow> exn + package list"
  http_delete :: "string \<Rightarrow> string \<Rightarrow> string \<Rightarrow> 'w \<Rightarrow> (exn + unit) \<times> 'w"
  gen_sleep :: "int \<Rightarrow> 'w \<Rightarrow> 'w"

text \<open>\<open>s.split('/')[-1]\<close>: what follows the last slash.\<close>

definition last_segment :: "string \<Rightarrow> string" where
  "last_segment s = rev (takeWhile (\<lambda>c. c \<noteq> CHR ''/'') (rev s))"

text \<open>
  \<open>_get_package_versions\<close>: the comprehension over the entries with the given name,
  where the first date that does not parse raises, and the sort, newest first. Python's
  sort is stable, also with \<open>reverse=True\<close>.
\<close>

fun versions_named :: "'w packagecloud_api \<Rightarrow> string \<Rightarrow> package list \<Rightarrow> exn + version_info list" where
  "versions_named api name [] = Inr []"
| "versions_named api name (package # all_packages) =
     (if pkg_name package = name
      then (case strptime api (pkg_created_at package) of
              None \<Rightarrow> Inl ValueError
            | Some t \<Rightarrow>
                (case versions_named api name all_packages of
                   Inl e \<Rightarrow> Inl e
                 | Inr versions \<Rightarrow>
                     Inr (\<lparr>ver_created_at = t,
                           ver_distro_version = pkg_distro_version package,
                           ver_filename = last_segment (pkg_package_html_url package),
                           ver_name = pkg_name package\<rparr> # versions)))
      else versions_named api name all_packages)"

definition get_package_versions ::
  "'w packagecloud_api \<Rightarrow> string \<Rightarrow> package list \<Rightarrow> exn + version_info list" where
  "get_package_versions api name all_packages =
     (case versions_named api name all_packages of
        Inl e \<Rightarrow> Inl e
      | Inr versions \<Rightarrow> Inr (sort_key (\<lambda>x. - ver_created_at x) versions))"

text \<open>
  \<open>_get_packages_list_to_delete\<close>: the set of the names that match. The order in which
  Python walks a set is not fixed; the names are kept here in a list without repetition.
\<close>

definition get_packages_list_to_delete ::
  "'w packagecloud_api \<Rightarrow> string \<Rightarrow> package list \<Rightarrow> exn + string list" where
  "get_packages_list_to_delete api packages_to_delete all_packages =
     (case re_compile api packages_to_delete of
        None \<Rightarrow> Inl ReError
      | Some pattern_match \<Rightarrow>
          Inr (remdups (map pkg_name (filter (\<lambda>package. pattern_match (pkg_name package))
                                            all_packages))))"

text \<open>
  The inner loop of \<open>_delete\<close>, over the versions of one package, with the counter
  \<open>number_in_repo\<close> and the list \<open>deleted_packages\<close>: the \<open>break\<close> of the safety
  check, the \<open>continue\<close> of the age test, then the deletion, which is only logged when
  \<open>self._dry\<close> is set.
\<close>

fun delete_versions ::
  "'w packagecloud_api \<Rightarrow> bool \<Rightarrow> string \<Rightarrow> int \<Rightarrow> int \<Rightarrow> version_info list \<Rightarrow> int \<Rightarrow>
   version_info list \<Rightarrow> 'w \<Rightarrow> (exn + version_info list) \<times> 'w" where
  "delete_versions api dry_flag repo older_than number_to_keep [] number_in_repo
     deleted_packages w = (Inr deleted_packages, w)"
| "delete_versions api dry_flag repo older_than number_to_keep (package # package_versions)
     number_in_repo deleted_packages w =
     (if number_in_repo \<le> number_to_keep then (Inr deleted_packages, w)
      else if older_than \<noteq> 0
              \<and> datetime_now api w - ver_created_at package \<le> older_than * 1000000
      then delete_versions api dry_flag repo older_than number_to_keep package_versions
             number_in_repo deleted_packages w
      else if dry_flag
      then delete_versions api dry_flag repo older_than number_to_keep package_versions
             (number_in_repo - 1) (deleted_packages @ [package]) w
      else (case http_delete api repo (ver_distro_version package) (ver_filename package) w of
              (Inl e, w') \<Rightarrow> (Inl e, w')
            | (Inr u, w') \<Rightarrow>
                delete_versions api dry_flag repo older_than number_to_keep package_versions
                  (number_in_repo - 1) (deleted_packages @ [package]) w'))"

text \<open>The outer loop of \<open>_delete\<close>, over the names to delete.\<close>

fun delete_names ::
  "'w packagecloud_api \<Rightarrow> bool \<Rightarrow> string \<Rightarrow> int \<Rightarrow> int \<Rightarrow> package list \<Rightarrow> string list \<Rightarrow>
   version_info list \<Rightarrow> 'w \<Rightarrow> (exn + version_info list) \<times> 'w" where
  "delete_names api dry_flag repo older_than number_to_keep all_packages [] deleted_packages w =
     (Inr deleted_packages, w)"
| "delete_names api dry_flag repo older_than number_to_keep all_packages (name # names)
     deleted_packages w =
     (case get_package_versions api name all_packages of
        Inl e \<Rightarrow> (Inl e, w)
      | Inr package_versions \<Rightarrow>
          (case delete_versions api dry_flag repo older_than number_to_keep package_versions
                  (int (length package_versions)) deleted_packages w of
             (Inl e, w') \<Rightarrow> (Inl e, w')
           | (Inr deleted_packages', w') \<Rightarrow>
               delete_names api dry_flag repo older_than number_to_keep all_packages names
                 deleted_packages' w'))"

text \<open>\<open>PackagecloudBase._delete\<close>; \<open>dry_flag\<close> is \<open>self._dry\<close>.\<close>

definition PackagecloudBase_delete ::
  "'w packagecloud_api \<Rightarrow> bool \<Rightarrow> string \<Rightarrow> string \<Rightarrow> int \<Rightarrow> int \<Rightarrow> 'w \<Rightarrow>
   (exn + version_info list) \<times> 'w" where
  "PackagecloudBase_delete api dry_flag packages_to_delete repo older_than number_to_keep w =
     (case http_get_packages api repo w of
        Inl e \<Rightarrow> (Inl e, w)
      | Inr all_packages \<Rightarrow>
          (case get_packages_list_to_delete api packages_to_delete all_packages of
             Inl e \<Rightarrow> (Inl e, w)
           | Inr packages_list_to_delete \<Rightarrow>
               delete_names api dry_flag repo older_than number_to_keep all_packages
                 packages_list_to_delete [] w))"

subsection \<open>\<open>WaitForPackage\<close>\<close>

record WaitForPackage =
  wfp_dry :: bool
  wfp_name :: string
  wfp_version :: string
  wfp_repo :: string
  wfp_sleep :: int

definition search ::
  "'w packagecloud_api \<Rightarrow> string \<Rightarrow> string \<Rightarrow> string \<Rightarrow> 'w \<Rightarrow> exn + package list" where
  "search api repo name version w =
     (case http_get_packages api repo w of
        Inl e \<Rightarrow> Inl e
      | Inr all_packages \<Rightarrow>
          (case re_compile api name of
             None \<Rightarrow> Inl ReError
           | Some name_match \<Rightarrow>
               (case re_compile api version of
                  None \<Rightarrow> Inl ReError
                | Some version_match \<Rightarrow>
                    Inr (filter (\<lambda>p. name_match (pkg_name p) \<and> version_match (pkg_version p))
                           all_packages))))"

text \<open>
  The \<open>while True\<close> of \<open>WaitForPackage._execute\<close>. The number carried along counts the
  searches. The loop does not read \<open>self._dry\<close>.
\<close>

partial_function (option) WaitForPackage_loop ::
  "'w packagecloud_api \<Rightarrow> WaitForPackage \<Rightarrow> nat \<Rightarrow> 'w \<Rightarrow>
   ((exn + package list) \<times> nat \<times> 'w) option" where
  "WaitForPackage_loop api self searches w =
     (case search api (wfp_repo self) (wfp_name self) (wfp_version self) w of
        Inl e \<Rightarrow> Some (Inl e, Suc searches, w)
      | Inr matched_packages \<Rightarrow>
          if 0 < length matched_packages
          then Some (Inr matched_packages, Suc searches, w)
          else WaitForPackage_loop api self (Suc searches) (gen_sleep api (wfp_sleep self) w))"

definition WaitForPackage_execute ::
  "'w packagecloud_api \<Rightarrow> WaitForPackage \<Rightarrow> 'w \<Rightarrow> ((exn + package list) \<times> nat \<times> 'w) option" where
  "WaitForPackage_execute api self w = WaitForPackage_loop api self 0 w"

subsection \<open>Counting versions\<close>

text \<open>
  How many versions of a package the listing holds, and how many of them are in the list
  of deleted packages that \<open>_delete\<close> returns.
\<close>

definition versions_in_repo :: "string \<Rightarrow> package list \<Rightarrow> int" where
  "versions_in_repo name all_packages = int (length (filter (\<lambda>p. pkg_name p = name) all_packages))"

definition versions_deleted :: "string \<Rightarrow> version_info list \<Rightarrow> int" where
  "versions_deleted name deleted_packages =
     int (length (filter (\<lambda>v. ver_name v = name) deleted_packages))"

subsection \<open>Observing the HTTP deletes\<close>

text \<open>
  The same service with a journal beside its world: every HTTP delete it receives is
  noted, with the repository, the distribution and the file name it addresses, whether
  the service then answers or fails. Nothing else is changed.
\<close>

definition journalled ::
  "'w packagecloud_api \<Rightarrow> ('w \<times> (string \<times> string \<times> string) list) packagecloud_api" where
  "journalled api =
     \<lparr>re_compile = re_compile api,
      strptime = strptime api,
      datetime_now = (\<lambda>s. datetime_now api (fst s)),
      http_get_packages = (\<lambda>repo s. http_get_packages api repo (fst s)),
      http_delete = (\<lambda>repo distro_version filename s.
         case http_delete api repo distro_version filename (fst s) of
           (r, w') \<Rightarrow> (r, (w', snd s @ [(repo, distro_version, filename)]))),
      gen_sleep = (\<lambda>seconds s. (gen_sleep api seconds (fst s), snd s))\<rparr>"

text \<open>The HTTP delete that removes a given version from a repository.\<close>

definition delete_call :: "string \<Rightarrow> version_info \<Rightarrow> string \<times> string \<times> string" where
  "delete_call repo package = (repo, ver_distro_version package, ver_filename package)"

text \<open>
  A version is listed when \<open>_get_package_versions\<close> finds it, under its own name, in the
  listing.
\<close>

definition listed :: "'w packagecloud_api \<Rightarrow> package list \<Rightarrow> version_info \<Rightarrow> bool" where
  "listed api all_packages v =
     (case get_package_versions api (ver_name v) all_packages of
        Inl e \<Rightarrow> False
      | Inr versions \<Rightarrow> v \<in> set versions)"

text \<open>
  The file an entry of the listing stands for, as a delete addresses it, and the entries
  of a name that survive a journal of deletes: those whose file no delete addressed.
\<close>

definition file_of :: "package \<Rightarrow> string \<times> string" where
  "file_of p = (pkg_distro_version p, last_segment (pkg_package_html_url p))"

definition surviving ::
  "string \<Rightarrow> (string \<times> string \<times> string) list \<Rightarrow> string \<Rightarrow> package list \<Rightarrow> package list" where
  "surviving repo calls name all_packages =
     filter (\<lambda>p. (repo, file_of p) \<notin> set calls)
       (filter (\<lambda>p. pkg_name p = name) all_packages)"

section \<open>Building the tree of actors\<close>

text \<open>
  The declarative input: JSON values. A child specification is a dictionary with the keys
  \<open>desc\<close>, \<open>actor\<close> and \<open>options\<close>; the options of a group hold the list \<open>acts\<close> of its
  child specifications.
\<close>

datatype jval =
    JNull | JBool bool | JInt int | JStr string
  | JList "jval list"
  | JDict "(string \<times> jval) list"

type_synonym options = "(string \<times> jval) list"

text \<open>
  An actor as its constructor leaves it: its class, \<open>_desc\<close>, \<open>_options\<close>, \<open>_dry\<close> and,
  for a group, \<open>_actions\<close>.
\<close>

datatype actor_object =
  ActorObject (obj_class: string) (obj_desc: string) (obj_options: options) (obj_dry: bool)
    (obj_actions: "actor_object list")

text \<open>
  The classes an actor-type identifier can resolve to: a group (\<open>Sync\<close> and \<open>Async\<close>
  share the constructor of \<open>BaseGroupActor\<close>), or a class of its own, of which only the
  check of its options at construction matters here (\<open>Some e\<close>: the constructor raises
  \<open>e\<close>).
\<close>

datatype actor_class = GroupClass | LeafClass "options \<Rightarrow> exn option"

type_synonym registry = "string \<Rightarrow> actor_class option"

text \<open>
  Modelled from the spec: the constructor of \<open>base.BaseActor\<close>, which is not among the
  sources. The spec gives an action the attributes description, dry-run flag (fixed at
  construction) and options, and makes construction fail on a missing required option.
\<close>

definition BaseActor_init ::
  "string list \<Rightarrow> string \<Rightarrow> string \<Rightarrow> options \<Rightarrow> bool \<Rightarrow> exn + actor_object" where
  "BaseActor_init required_options cls description opts dry_flag =
     (if list_all (\<lambda>k. map_of opts k \<noteq> None) required_options
      then Inr (ActorObject cls description opts dry_flag [])
      else Inl InvalidOptions)"

text \<open>
  Modelled from the spec: \<open>utils.get_actor\<close>, which is not among the sources. The spec
  has the engine resolve the actor-type identifier of a child specification to a
  constructor, an unknown identifier being a configuration error, and build nested groups
  in the same way.

  \<open>BaseGroupActor.__init__\<close> and \<open>_build_actions\<close> are the source's: the constructor of
  the base class with \<open>required_options = ['acts']\<close>, then the loop that calls
  \<open>get_actor(act, dry=self._dry)\<close> for each element of \<open>self._options['acts']\<close>, where
  the first exception leaves the loop and the constructor. An \<open>acts\<close> that is not a list
  is refused.
\<close>

function get_actor :: "registry \<Rightarrow> jval \<Rightarrow> bool \<Rightarrow> exn + actor_object"
  and BaseGroupActor_init ::
    "registry \<Rightarrow> string \<Rightarrow> string \<Rightarrow> options \<Rightarrow> bool \<Rightarrow> exn + actor_object"
  and build_actions :: "registry \<Rightarrow> jval list \<Rightarrow> bool \<Rightarrow> exn + actor_object list"
where
  "get_actor reg config dry_flag =
     (case config of
        JDict cfg \<Rightarrow>
          (case (map_of cfg ''actor'', map_of cfg ''desc'', map_of cfg ''options'') of
             (Some (JStr actor_string), Some (JStr description), Some (JDict opts)) \<Rightarrow>
               (case reg actor_string of
                  None \<Rightarrow> Inl InvalidOptions
                | Some GroupClass \<Rightarrow> BaseGroupActor_init reg actor_string description opts dry_flag
                | Some (LeafClass validate) \<Rightarrow>
                    (case validate opts of
                       Some e \<Rightarrow> Inl e
                     | None \<Rightarrow> BaseActor_init [] actor_string description opts dry_flag))
           | _ \<Rightarrow> Inl InvalidOptions)
      | _ \<Rightarrow> Inl InvalidOptions)"
| "BaseGroupActor_init reg cls description opts dry_flag =
     (case BaseActor_init [''acts''] cls description opts dry_flag of
        Inl e \<Rightarrow> Inl e
      | Inr self \<Rightarrow>
          (case map_of opts ''acts'' of
             Some (JList acts) \<Rightarrow>
               (case build_actions reg acts (obj_dry self) of
                  Inl e \<Rightarrow> Inl e
                | Inr actions \<Rightarrow>
                    Inr (ActorObject (obj_class self) (obj_desc self) (obj_options self)
                           (obj_dry self) actions))
           | _ \<Rightarrow> Inl InvalidOptions))"
| "build_actions reg [] dry_flag = Inr []"
| "build_actions reg (act # acts) dry_flag =
     (case get_actor reg act dry_flag of
        Inl e \<Rightarrow> Inl e
      | Inr actor \<Rightarrow>
          (case build_actions reg acts dry_flag of
             Inl e \<Rightarrow> Inl e
           | Inr actions \<Rightarrow> Inr (actor # actions)))"
  by pat_completeness auto
termination
proof -
  have sz: "size v < Suc (size_list (size_prod (\<lambda>_. 0) size) kv)"
    if "map_of kv k = Some v" for kv :: options and k v
    using that by (induction kv) (auto split: if_splits)
  have dict: "size_list (size_prod (\<lambda>_. 0) size) opts < size_list (size_prod (\<lambda>_. 0) size) kv"
    if "Some (JDict opts) = map_of kv k" for kv opts :: options and k
    using sz[of kv k "JDict opts"] that by simp
  have lst: "size_list size acts < size_list (size_prod (\<lambda>_. 0) size) kv"
    if "map_of kv k = Some (JList acts)" for kv :: options and k acts
    using sz[of kv k "JList acts"] that by simp
  show ?thesis
    apply (relation "measure (\<lambda>x. case x of
              Inl (reg, config, d) \<Rightarrow> size config
            | Inr (Inl (reg, cls, description, opts, d)) \<Rightarrow> size (JDict opts)
            | Inr (Inr (reg, acts, d)) \<Rightarrow> size (JList acts))")
        apply (auto dest: dict lst)
    done
qed

declare get_actor.simps [simp del] BaseGroupActor_init.simps [simp del]

text \<open>The actors below an actor in the tree: its children, their children, and so on.\<close>

fun descendants :: "actor_object \<Rightarrow> actor_object list"
  and descendants_of_all :: "actor_object list \<Rightarrow> actor_object list" where
  "descendants (ActorObject cls description opts dry_flag actions) = descendants_of_all actions"
| "descendants_of_all [] = []"
| "descendants_of_all (a # as) = a # descendants a @ descendants_of_all as"

section \<open>Observing the children of a group\<close>

text \<open>
  To see when a child is called and when it finishes, a child is wrapped so that it keeps
  a journal beside the world it works on: it notes \<open>Started i\<close> when its \<open>execute\<close> is
  called and \<open>Completed i\<close> at the moment its future becomes resolved, be it within the
  call or at a later resumption. What the child does to its own world, and what it
  returns or raises, is unchanged.
\<close>

datatype event = is_Started: Started nat | is_Completed: Completed nat

primrec traced :: "nat \<Rightarrow> 'w future \<Rightarrow> (event list \<times> 'w) future" where
  "traced i (Done r) = Done r"
| "traced i (Pending f k) =
     Pending (\<lambda>s. (if is_done (k (snd s)) then fst s @ [Completed i] else fst s, f (snd s)))
             (\<lambda>s. traced i (k (snd s)))"

definition traced_actor :: "nat \<Rightarrow> 'w actor \<Rightarrow> (event list \<times> 'w) actor" where
  "traced_actor i act =
     \<lparr>desc = desc act, dry = dry act,
      execute = (\<lambda>s. case execute act (snd s) of
                   (w1, fut) \<Rightarrow>
                     ((fst s @ Started i # (if is_done fut then [Completed i] else []), w1),
                      traced i fut))\<rparr>"

text \<open>The children of a group, each wrapped under its position in the list.\<close>

fun traced_from :: "nat \<Rightarrow> 'w actor list \<Rightarrow> (event list \<times> 'w) actor list" where
  "traced_from i [] = []"
| "traced_from i (act # acts) = traced_actor i act # traced_from (Suc i) acts"

definition traced_all :: "'w actor list \<Rightarrow> (event list \<times> 'w) actor list" where
  "traced_all acts = traced_from 0 acts"

text \<open>The futures of wrapped children, seen from the futures of the children themselves.\<close>

fun traced_list :: "nat \<Rightarrow> 'w future list \<Rightarrow> (event list \<times> 'w) future list" where
  "traced_list i [] = []"
| "traced_list i (fut # futs) = traced i fut # traced_list (Suc i) futs"

text \<open>
  The journal of \<open>n\<close> children, numbered from \<open>i\<close>, that run strictly in turn: each one
  starts and completes before the next one starts.
\<close>

fun in_turn :: "nat \<Rightarrow> nat \<Rightarrow> event list" where
  "in_turn i 0 = []"
| "in_turn i (Suc n) = Started i # Completed i # in_turn (Suc i) n"

text \<open>
  What calling the children, and nothing more, amounts to: each \<open>execute\<close> is called in
  the world the call before left, and the future it hands back is kept as it is handed
  back, resumed by nobody. The journal of these calls holds, for each child in turn, its
  start, and its completion only if the future was handed back resolved.
\<close>

fun handed_back :: "'w actor list \<Rightarrow> 'w \<Rightarrow> 'w future list" where
  "handed_back [] w = []"
| "handed_back (act # acts) w = snd (execute act w) # handed_back acts (fst (execute act w))"

fun calls_journal :: "nat \<Rightarrow> 'w future list \<Rightarrow> event list" where
  "calls_journal i [] = []"
| "calls_journal i (fut # futs) =
     Started i # (if is_done fut then [Completed i] else []) @ calls_journal (Suc i) futs"

section \<open>Concrete inputs\<close>

text \<open>
  A repository to which the awaited package is never uploaded, with its world the number
  of sleeps so far, and a \<open>WaitForPackage\<close> in dry mode. The stand-in for \<open>re.compile\<close>
  reads its pattern as a literal prefix, as \<open>match\<close> does for a pattern without special
  characters.
\<close>

definition ex_never_uploaded :: "nat packagecloud_api" where
  "ex_never_uploaded =
     \<lparr>re_compile = (\<lambda>p. Some (\<lambda>s. take (length p) s = p)),
      strptime = (\<lambda>s. None),
      datetime_now = (\<lambda>w. 0),
      http_get_packages = (\<lambda>repo w. Inr []),
      http_delete = (\<lambda>repo distro_version filename w. (Inr (), w)),
      gen_sleep = (\<lambda>seconds w. Suc w)\<rparr>"

definition ex_wait_dry :: WaitForPackage where
  "ex_wait_dry =
     \<lparr>wfp_dry = True, wfp_name = ''kingpin'', wfp_version = ''0.2'', wfp_repo = ''test'',
      wfp_sleep = 10\<rparr>"

text \<open>
  A balancer whose register and deregister calls always fail with an unrecoverable error;
  the world counts the attempts.
\<close>

definition ex_unrecoverable :: "(unit, nat) elb_api" where
  "ex_unrecoverable =
     \<lparr>find_elb = (\<lambda>name w. Inr ()),
      get_instance_health = (\<lambda>elb w. Inr []),
      register_instances = (\<lambda>elb instances w. (Inl UnrecoverableActorFailure, Suc w)),
      deregister_instances = (\<lambda>elb instances w. (Inl UnrecoverableActorFailure, Suc w)),
      tornado_sleep = (\<lambda>seconds w. w)\<rparr>"

text \<open>
  A repository with three versions of one package and one version of another; its world
  is the list of the HTTP deletes received.
\<close>

definition ex_listing :: "package list" where
  "ex_listing =
     [\<lparr>pkg_name = ''kingpin'', pkg_created_at = ''2015-01-01T00:00:00.000Z'',
       pkg_distro_version = ''ubuntu/trusty'',
       pkg_package_html_url = ''/nextdoor/test/packages/ubuntu/trusty/kingpin_0.1_all.deb'',
       pkg_version = ''0.1''\<rparr>,
      \<lparr>pkg_name = ''zookeeper'', pkg_created_at = ''2015-01-02T00:00:00.000Z'',
       pkg_distro_version = ''ubuntu/trusty'',
       pkg_package_html_url = ''/nextdoor/test/packages/ubuntu/trusty/zookeeper_3.4_all.deb'',
       pkg_version = ''3.4''\<rparr>,
      \<lparr>pkg_name = ''kingpin'', pkg_created_at = ''2015-01-03T00:00:00.000Z'',
       pkg_distro_version = ''ubuntu/trusty'',
       pkg_package_html_url = ''/nextdoor/test/packages/ubuntu/trusty/kingpin_0.3_all.deb'',
       pkg_version = ''0.3''\<rparr>,
      \<lparr>pkg_name = ''kingpin'', pkg_created_at = ''2015-01-02T00:00:00.000Z'',
       pkg_distro_version = ''ubuntu/trusty'',
       pkg_package_html_url = ''/nextdoor/test/packages/ubuntu/trusty/kingpin_0.2_all.deb'',
       pkg_version = ''0.2''\<rparr>]"

definition ex_repository :: "(string \<times> string \<times> string) list packagecloud_api" where
  "ex_repository =
     \<lparr>re_compile = (\<lambda>p. Some (\<lambda>s. take (length p) s = p)),
      strptime = map_of [(''2015-01-01T00:00:00.000Z'', 1), (''2015-01-02T00:00:00.000Z'', 2),
                         (''2015-01-03T00:00:00.000Z'', 3)],
      datetime_now = (\<lambda>w. 4),
      http_get_packages = (\<lambda>repo w. Inr ex_listing),
      http_delete = (\<lambda>repo distro_version filename w. (Inr (), w @ [(repo, distro_version, filename)])),
      gen_sleep = (\<lambda>seconds w. w)\<rparr>"

text \<open>Two actors in dry mode.\<close>

definition ex_register :: RegisterInstance where
  "ex_register = \<lparr>reg_dry = True, reg_elb = ''prod-elb'', reg_instance_id = PStr ''i-0a1b2c3d''\<rparr>"

definition ex_deregister :: DeregisterInstance where
  "ex_deregister =
     \<lparr>dereg_dry = True, dereg_elb = ''prod-elb'',
      dereg_instance_id = PList [PStr ''i-0a1b2c3d'', PStr ''i-4e5f6a7b'']\<rparr>"

text \<open>
  A registry with the two groups and one class of its own, whose option \<open>sleep\<close> must be
  an integer; a list of three child specifications of which the third is invalid; and the
  options of a group that holds another group.
\<close>

definition ex_registry :: registry where
  "ex_registry =
     [''group.Sync'' \<mapsto> GroupClass,
      ''group.Async'' \<mapsto> GroupClass,
      ''misc.Sleep'' \<mapsto> LeafClass (\<lambda>opts. case map_of opts ''sleep'' of
                                             Some (JInt n) \<Rightarrow> None
                                           | _ \<Rightarrow> Some InvalidOptions)]"

definition ex_sleep :: "string \<Rightarrow> jval \<Rightarrow> jval" where
  "ex_sleep description seconds =
     JDict [(''desc'', JStr description), (''actor'', JStr ''misc.Sleep''),
            (''options'', JDict [(''sleep'', seconds)])]"

definition ex_acts :: "jval list" where
  "ex_acts = [ex_sleep ''one'' (JInt 1), ex_sleep ''two'' (JInt 2), ex_sleep ''three'' (JStr ''soon'')]"

definition ex_nested :: options where
  "ex_nested =
     [(''acts'', JList [ex_sleep ''one'' (JInt 1),
                        JDict [(''desc'', JStr ''inner''), (''actor'', JStr ''group.Async''),
                               (''options'', JDict [(''acts'', JList [ex_sleep ''two'' (JInt 2)])])]])]"

text \<open>A child that suspends once and then fails with an exception.\<close>

definition ex_raising :: "nat actor" where
  "ex_raising = \<lparr>desc = ''register instance'', dry = False,
     execute = (\<lambda>w. (w, Pending (\<lambda>w. w + 1) (\<lambda>w. Done (Inl UnrecoverableActorFailure))))\<rparr>"

text \<open>A child that suspends twice before it succeeds.\<close>

definition ex_twice :: "nat actor" where
  "ex_twice = \<lparr>desc = ''wait for release'', dry = False,
     execute = (\<lambda>w. (w, Pending (\<lambda>w. w + 1)
                            (\<lambda>w. Pending (\<lambda>w. w * 10) (\<lambda>w. Done (Inr (PBool True))))))\<rparr>"

text \<open>
  The example repository with a service that answers the first HTTP delete and fails on
  every later one; its world is the number of deletes received.
\<close>

definition ex_flaky :: "nat packagecloud_api" where
  "ex_flaky =
     \<lparr>re_compile = (\<lambda>p. Some (\<lambda>s. take (length p) s = p)),
      strptime = map_of [(''2015-01-01T00:00:00.000Z'', 1), (''2015-01-02T00:00:00.000Z'', 2),
                         (''2015-01-03T00:00:00.000Z'', 3)],
      datetime_now = (\<lambda>w. 4),
      http_get_packages = (\<lambda>repo w. Inr ex_listing),
      http_delete = (\<lambda>repo distro_version filename w.
                       (if w = 0 then Inr () else Inl (ExternalError ''503''), Suc w)),
      gen_sleep = (\<lambda>seconds w. w)\<rparr>"

section \<open>Properties of the groups\<close>

inductive_cases resolves_DoneE: "resolves_to (Done r) v"
inductive_cases resolves_PendingE: "resolves_to (Pending f k) v"

lemma await_resolves: "resolves_to fut v \<Longrightarrow> fst (await fut w) = Inr v"
  by (induction arbitrary: w rule: resolves_to.induct) auto

lemma call_and_wait_returns: "returns act v \<Longrightarrow> fst (call_and_wait act w) = Inr v"
proof -
  assume r: "returns act v"
  obtain w1 fut where e: "execute act w = (w1, fut)" by (cases "execute act w")
  from r have "resolves_to (snd (execute act w)) v" by (simp add: returns_def)
  with e have "resolves_to fut v" by simp
  then have "fst (await fut w1) = Inr v" by (rule await_resolves)
  with e show ?thesis by (simp add: call_and_wait_def)
qed

lemma py_all_list_all: "py_all xs = list_all truthy xs"
  by (induction xs) auto

lemma Sync_loop_returns:
  "list_all2 returns acts rs \<Longrightarrow> fst (Sync_loop acts acc st) = Inr (acc @ rs)"
proof (induction acts acc st arbitrary: rs rule: Sync_loop.induct)
  case (1 returns st)
  then show ?case by simp
next
  case (2 act acts acc lg w)
  from "2.prems" obtain r rs' where rs: "rs = r # rs'" and r: "returns act r"
    and rest: "list_all2 returns acts rs'"
    by (auto simp: list_all2_Cons1)
  obtain w' where cw: "call_and_wait act w = (Inr r, w')"
    using call_and_wait_returns[OF r, of w] by (cases "call_and_wait act w") auto
  show ?case using "2.IH"[OF cw[symmetric] _ rest] cw rs by simp
qed

lemma results_of_resolved:
  "list_all2 resolves_to futs rs \<Longrightarrow> list_all is_done futs \<Longrightarrow> results_of futs = Inr rs"
proof (induction futs rs rule: list_all2_induct)
  case Nil
  then show ?case by simp
next
  case (Cons f fs r rs)
  then show ?case by (cases f) (auto elim: resolves_DoneE)
qed

lemma pending_positions_Nil: "pending_positions futs = [] \<longleftrightarrow> list_all is_done futs"
  by (auto simp: pending_positions_def filter_empty_conv list_all_length)

lemma pending_positions_bound: "i \<in> set (pending_positions futs) \<Longrightarrow> i < length futs \<and> \<not> is_done (futs ! i)"
  by (auto simp: pending_positions_def)

lemma resume_resolves:
  assumes "list_all2 resolves_to futs rs" "i < length futs" "resume i futs w = (futs', w')"
  shows "list_all2 resolves_to futs' rs"
proof (cases "futs ! i")
  case (Done r)
  with assms show ?thesis by (simp add: resume_def)
next
  case (Pending f k)
  from assms(1,2) have "resolves_to (futs ! i) (rs ! i)" by (simp add: list_all2_nthD)
  with Pending have "resolves_to (k w) (rs ! i)" by (auto elim: resolves_PendingE)
  with assms Pending show ?thesis
    by (auto simp: resume_def list_all2_conv_all_nth nth_list_update)
qed

lemma wait_all_result:
  "list_all2 resolves_to futs rs \<Longrightarrow> wait_all sched futs w = Some (res, w') \<Longrightarrow> res = Inr rs"
proof (induction sched arbitrary: futs w)
  case Nil
  then show ?case by (auto simp: results_of_resolved split: if_splits)
next
  case (Cons c sched)
  show ?case
  proof (cases "list_all is_done futs")
    case True
    with Cons.prems show ?thesis by (auto simp: results_of_resolved)
  next
    case False
    define ps where "ps = pending_positions futs"
    define i where "i = ps ! (c mod length ps)"
    from False have "ps \<noteq> []" by (simp add: ps_def pending_positions_Nil)
    then have "i \<in> set ps" by (simp add: i_def)
    then have i: "i < length futs" using pending_positions_bound ps_def by blast
    obtain futs' w1 where r: "resume i futs w = (futs', w1)" by (cases "resume i futs w")
    from Cons.prems(2) False r have "wait_all sched futs' w1 = Some (res, w')"
      by (simp add: Let_def ps_def i_def)
    with Cons.IH resume_resolves[OF Cons.prems(1) i r] show ?thesis by blast
  qed
qed

lemma hd_filter_upt:
  assumes "i < n" "P i" "\<forall>j<i. \<not> P j"
  shows "hd (filter P [0..<n]) = i"
proof -
  have "[0..<n] = [0..<i] @ i # [Suc i..<n]"
    using assms(1) by (metis le_add1 less_imp_add_positive upt_add_eq_append upt_conv_Cons plus_nat.add_0 less_or_eq_imp_le)
  moreover have "filter P [0..<i] = []" using assms(3) by (auto simp: filter_empty_conv)
  ultimately show ?thesis using assms(2) by simp
qed

lemma first_pending:
  assumes "i < length futs" "\<not> is_done (futs ! i)" "\<forall>j<i. is_done (futs ! j)"
  shows "hd (pending_positions futs) = i"
  unfolding pending_positions_def using assms by (intro hd_filter_upt) auto

lemma wait_all_step0:
  assumes "i < length futs" "futs ! i = Pending f k" "\<forall>j<i. is_done (futs ! j)"
  shows "wait_all (0 # sched) futs w = wait_all sched (futs[i := k w]) (f w)"
proof -
  have nd: "\<not> list_all is_done futs" using assms(1,2) by (auto simp: list_all_length)
  have h: "hd (pending_positions futs) = i" using assms by (intro first_pending) auto
  have ne: "pending_positions futs \<noteq> []" using nd by (simp add: pending_positions_Nil)
  then have "pending_positions futs ! 0 = i" using h by (simp add: hd_conv_nth)
  then show ?thesis using nd assms(2) by (simp add: Let_def resume_def)
qed

lemma run_first_pending:
  "resolves_to fut v \<Longrightarrow> i < length futs \<Longrightarrow> futs ! i = fut \<Longrightarrow> \<forall>j<i. is_done (futs ! j) \<Longrightarrow>
   \<exists>n w'. \<forall>sched. wait_all (replicate n 0 @ sched) futs w = wait_all sched (futs[i := Done (Inr v)]) w'"
proof (induction arbitrary: futs w rule: resolves_to.induct)
  case (resolved v)
  have "futs[i := Done (Inr v)] = futs" using resolved by (metis list_update_id)
  then have "\<forall>sched. wait_all (replicate 0 0 @ sched) futs w = wait_all sched (futs[i := Done (Inr v)]) w"
    by simp
  then show ?case by blast
next
  case (suspended k v f)
  let ?futs = "futs[i := k w]"
  have 1: "i < length ?futs" using suspended.prems by simp
  have 2: "?futs ! i = k w" using suspended.prems by simp
  have 3: "\<forall>j<i. is_done (?futs ! j)" using suspended.prems by simp
  from suspended.IH[OF 1 2 3, of "f w"] obtain n w' where
    n: "\<forall>sched. wait_all (replicate n 0 @ sched) ?futs (f w) = wait_all sched (?futs[i := Done (Inr v)]) w'"
    by blast
  have "\<forall>sched. wait_all (replicate (Suc n) 0 @ sched) futs w = wait_all sched (futs[i := Done (Inr v)]) w'"
  proof
    fix sched
    have "wait_all (replicate (Suc n) 0 @ sched) futs w = wait_all (replicate n 0 @ sched) ?futs (f w)"
      using wait_all_step0[of i futs f k "replicate n 0 @ sched" w] suspended.prems by simp
    with n show "wait_all (replicate (Suc n) 0 @ sched) futs w = wait_all sched (futs[i := Done (Inr v)]) w'"
      by simp
  qed
  then show ?case by blast
qed

lemma wait_all_done: "list_all is_done futs \<Longrightarrow> wait_all sched futs w = Some (results_of futs, w)"
  by (cases sched) auto

lemma wait_all_returns_from:
  "list_all2 resolves_to futs rs \<Longrightarrow> i \<le> length futs \<Longrightarrow> \<forall>j<i. is_done (futs ! j) \<Longrightarrow>
   \<exists>sched w'. wait_all sched futs w = Some (Inr rs, w')"
proof (induction "length futs - i" arbitrary: i futs w)
  case 0
  then have "list_all is_done futs" by (auto simp: list_all_length)
  then show ?case using 0 results_of_resolved wait_all_done by (metis)
next
  case (Suc d)
  then have i: "i < length futs" by simp
  have r: "resolves_to (futs ! i) (rs ! i)" using Suc.prems(1) i by (simp add: list_all2_nthD)
  from run_first_pending[OF r i refl Suc.prems(3), of w] obtain n w1 where
    n: "\<forall>sched. wait_all (replicate n 0 @ sched) futs w = wait_all sched (futs[i := Done (Inr (rs ! i))]) w1"
    by blast
  let ?futs = "futs[i := Done (Inr (rs ! i))]"
  have a: "list_all2 resolves_to ?futs rs"
    using Suc.prems(1) i by (auto simp: list_all2_conv_all_nth nth_list_update intro: resolves_to.resolved)
  have b: "Suc i \<le> length ?futs" using i by simp
  have c: "\<forall>j<Suc i. is_done (?futs ! j)" using Suc.prems(3) i by (auto simp: nth_list_update less_Suc_eq)
  have d: "d = length ?futs - Suc i" using Suc.hyps(2) by simp
  from Suc.hyps(1)[OF d a b c, of w1] obtain sched w' where "wait_all sched ?futs w1 = Some (Inr rs, w')"
    by blast
  with n have "wait_all (replicate n 0 @ sched) futs w = Some (Inr rs, w')" by simp
  then show ?case by blast
qed

lemma wait_all_returns:
  "list_all2 resolves_to futs rs \<Longrightarrow> \<exists>sched w'. wait_all sched futs w = Some (Inr rs, w')"
  using wait_all_returns_from[of futs rs 0 w] by simp

lemma start_all_resolves:
  "list_all2 returns acts rs \<Longrightarrow> list_all2 resolves_to ex rs0 \<Longrightarrow> start_all acts ex w = (futs, w') \<Longrightarrow>
   list_all2 resolves_to futs (rs0 @ rs)"
proof (induction acts arbitrary: rs ex rs0 w)
  case Nil
  then show ?case by simp
next
  case (Cons act acts)
  from Cons.prems(1) obtain r rs' where rs: "rs = r # rs'" and r: "returns act r"
    and rest: "list_all2 returns acts rs'"
    by (auto simp: list_all2_Cons1)
  obtain w1 fut where e: "execute act w = (w1, fut)" by (cases "execute act w")
  from r e have "resolves_to fut r" by (metis returns_def snd_conv)
  with Cons.prems(2) have ex: "list_all2 resolves_to (ex @ [fut]) (rs0 @ [r])"
    by (simp add: list_all2_appendI)
  from Cons.prems(3) e have "start_all acts (ex @ [fut]) w1 = (futs, w')" by simp
  from Cons.IH[OF rest ex this] rs show ?case by simp
qed

text \<open>A child that raises ends the loop of \<open>Sync\<close> there: the exception leaves the group.\<close>

lemma Sync_loop_raise:
  "call_and_wait act w = (Inl e, w') \<Longrightarrow>
   Sync_loop (act # acts) acc (lg, w) = (Inl e, (lg @ [Beginning (desc act)], w'))"
  by simp

text \<open>
  Claim C1. A group returns the conjunction of what its children return. Let the
  children return the values \<open>rs\<close>, each child its own, whatever the world looks like.
  Then \<open>Sync\<close> returns the boolean "every element of \<open>rs\<close> is true" (in Python's sense of
  truth, which on booleans is the boolean itself); \<open>Async\<close> returns under some schedule
  of its children, and under every schedule under which it returns the result is that same
  boolean.
\<close>

theorem C1_group_result_is_and:
  assumes "list_all2 returns actions rs"
  shows "fst (Sync_execute actions st) = Inr (PBool (list_all truthy rs))
       \<and> (\<exists>sched w'. Async_execute sched actions w = Some (Inr (PBool (list_all truthy rs)), w'))
       \<and> (\<forall>sched res w'. Async_execute sched actions w = Some (res, w')
             \<longrightarrow> res = Inr (PBool (list_all truthy rs)))"
proof (intro conjI allI impI)
  have "fst (Sync_loop actions [] st) = Inr rs" using Sync_loop_returns[OF assms, of "[]" st] by simp
  then show "fst (Sync_execute actions st) = Inr (PBool (list_all truthy rs))"
    by (cases "Sync_loop actions [] st")
       (simp add: Sync_execute_def BaseGroupActor_execute_def Sync_run_actions_def py_all_list_all)
next
  obtain futs w1 where s: "start_all actions [] w = (futs, w1)" by (cases "start_all actions [] w")
  have f: "list_all2 resolves_to futs rs" using start_all_resolves[OF assms _ s, of "[]"] by simp
  from wait_all_returns[OF f, of w1] obtain sched w' where "wait_all sched futs w1 = Some (Inr rs, w')"
    by blast
  with s have "Async_execute sched actions w = Some (Inr (PBool (list_all truthy rs)), w')"
    by (simp add: Async_execute_def Async_run_actions_def py_all_list_all)
  then show "\<exists>sched w'. Async_execute sched actions w = Some (Inr (PBool (list_all truthy rs)), w')"
    by blast
next
  fix sched res w'
  assume a: "Async_execute sched actions w = Some (res, w')"
  obtain futs w1 where s: "start_all actions [] w = (futs, w1)" by (cases "start_all actions [] w")
  have f: "list_all2 resolves_to futs rs" using start_all_resolves[OF assms _ s, of "[]"] by simp
  from a s obtain ret where w: "wait_all sched futs w1 = Some (ret, w')"
    and res: "res = (case ret of Inl e \<Rightarrow> Inl e | Inr v \<Rightarrow> Inr (PBool (py_all v)))"
    by (auto simp: Async_execute_def Async_run_actions_def split: option.splits sum.splits)
  from wait_all_result[OF f w] res show "res = Inr (PBool (list_all truthy rs))"
    by (simp add: py_all_list_all)
qed

theorem C1_group_result_is_and_witness:
  "list_all2 returns [ex_failing, ex_slow] [PBool False, PBool True]
   \<and> fst (Sync_execute [ex_failing, ex_slow] ([], 0)) = Inr (PBool False)"
proof -
  have h: "list_all2 returns [ex_failing, ex_slow] [PBool False, PBool True]"
    by (auto simp: returns_def ex_failing_def ex_slow_def intro!: resolves_to.intros)
  from C1_group_result_is_and[OF h, of "([], 0)"] h show ?thesis by simp
qed

section \<open>Properties of the load balancer actors\<close>

subsection \<open>The expected count\<close>

text \<open>
  The two examples of the percentage threshold, the count given as an integer, and the
  empty balancer, which any percentage finds healthy.
\<close>

lemma bit_length_numeral:
  "bit_length (numeral k) = Suc (bit_length (numeral k div 2))"
  "bit_length 0 = 0"
  "bit_length 1 = 1"
  by (simp_all add: bit_length.simps[of "numeral k"] bit_length.simps[of 0]
        bit_length.simps[of 1] bit_length.simps[of "Suc 0"])

lemmas expected_count_eval =
  get_expected_count_def p2f_def strip_percent_def py_float_def py_int_def is_digit_def
  digits_value_def digit_value_def double_div_int_def int_mul_double_def math_ceil_def
  to_double_def round_half_even_def Let_def bit_length_numeral

lemma expected_count_10_50: "get_expected_count (CountStr ''50%'') 10 = Inr 5"
  by (simp add: expected_count_eval)

lemma expected_count_0_50: "get_expected_count (CountStr ''50%'') 0 = Inr 0"
  by (simp add: expected_count_eval)

lemma expected_count_literal: "get_expected_count (CountInt n) total_count = Inr n"
  by (simp add: get_expected_count_def)

lemma is_healthy_empty_balancer:
  "get_instance_health api elb w = Inr [] \<Longrightarrow> is_healthy api elb (CountStr ''50%'') w = Inr True"
  by (simp add: is_healthy_def expected_count_0_50)

text \<open>
  Claim C5. The required count is the ceiling of total times percentage. On a balancer of
  100 instances with the count \<open>55%\<close> that is 55. The code computes
  \<open>math.ceil(100 * (float('55') / 100))\<close> in doubles: the quotient is the double next
  above 0.55, the product rounds to the double next above 55, and the ceiling is 56.
\<close>

theorem C5_expected_count_off_by_one:
  "get_expected_count (CountStr ''55%'') 100 = Inr 56"
  by (simp add: expected_count_eval)

subsection \<open>The polling loops\<close>

text \<open>
  In dry mode \<open>WaitUntilHealthy\<close> returns after one evaluation of \<open>_is_healthy\<close>,
  whatever boolean that evaluation gave.
\<close>

lemma WaitUntilHealthy_dry_run_one_check:
  assumes "wuh_dry self" "find_elb api (wuh_name self) w = Inr elb"
    and "is_healthy api elb (wuh_count self) w = Inr healthy"
  shows "WaitUntilHealthy_execute api self w = Some (Inr PNone, 1, w)"
  using assms by (simp add: WaitUntilHealthy_execute_def WaitUntilHealthy_loop.simps)

lemma WaitForPackage_loop_nothing_found:
  assumes "WaitForPackage_loop api self n w = Some y"
  shows "\<exists>w. search api (wfp_repo self) (wfp_name self) (wfp_version self) w \<noteq> Inr []"
  apply (rule WaitForPackage_loop.raw_induct[where
          P = "\<lambda>api self n w y. \<exists>w. search api (wfp_repo self) (wfp_name self) (wfp_version self) w \<noteq> Inr []",
          OF _ assms])
  subgoal premises prems for loop api' self' n' w' y'
  proof (cases "search api' (wfp_repo self') (wfp_name self') (wfp_version self') w'")
    case (Inl e)
    then show ?thesis by (metis sum.distinct(1))
  next
    case (Inr matched)
    show ?thesis
    proof (cases "matched = []")
      case True
      with Inr prems(2) have "loop api' self' (Suc n') (gen_sleep api' (wfp_sleep self') w') = Some y'"
        by simp
      then show ?thesis by (rule prems(1))
    next
      case False
      with Inr show ?thesis by (metis sum.inject(2))
    qed
  qed
  done

lemma WaitForPackage_never_returns:
  "\<forall>w. search api (wfp_repo self) (wfp_name self) (wfp_version self) w = Inr [] \<Longrightarrow>
   WaitForPackage_execute api self w = None"
  unfolding WaitForPackage_execute_def
  using WaitForPackage_loop_nothing_found[of api self 0 w]
  by (cases "WaitForPackage_loop api self 0 w") auto

text \<open>
  Claim C6. In dry mode a waiting actor ends after at most one evaluation of its
  condition. \<open>WaitForPackage\<close> does not: its loop has no test of the dry flag, and on a
  repository that never holds the package the dry run never returns.
\<close>

theorem C6_wait_for_package_dry_run_never_returns:
  "wfp_dry ex_wait_dry \<and> WaitForPackage_execute ex_never_uploaded ex_wait_dry 0 = None"
proof -
  have "\<forall>w. search ex_never_uploaded (wfp_repo ex_wait_dry) (wfp_name ex_wait_dry)
              (wfp_version ex_wait_dry) w = Inr []"
    by (simp add: search_def ex_never_uploaded_def)
  then have "WaitForPackage_execute ex_never_uploaded ex_wait_dry 0 = None"
    by (rule WaitForPackage_never_returns)
  then show ?thesis by (simp add: ex_wait_dry_def)
qed

text \<open>After two fruitless searches and two sleeps the same loop goes on.\<close>

lemma WaitForPackage_second_search:
  "WaitForPackage_loop ex_never_uploaded ex_wait_dry 0 0
   = WaitForPackage_loop ex_never_uploaded ex_wait_dry 2 2"
  by (simp add: WaitForPackage_loop.simps[of _ _ 0] WaitForPackage_loop.simps[of _ _ "Suc 0"]
        search_def ex_never_uploaded_def numeral_2_eq_2)

subsection \<open>The retry of the register and deregister calls\<close>

lemma retry_Some_is_success:
  assumes "retry f w = Some y"
  shows "\<exists>v w'. y = (Inr v, w')"
  by (rule retry.raw_induct[where P = "\<lambda>f w y. \<exists>v w'. y = (Inr v, w')", OF _ assms])
     (auto split: prod.splits sum.splits)

lemma retry_Some_not_always_failing:
  assumes "retry f w = Some y"
  shows "\<exists>w. \<not> isl (fst (f w))"
  apply (rule retry.raw_induct[where P = "\<lambda>f w y. \<exists>w. \<not> isl (fst (f w))", OF _ assms])
  subgoal premises prems for retry' g u z
  proof (cases "g u")
    case (Pair r u')
    show ?thesis
    proof (cases r)
      case (Inl e)
      with Pair prems(2) have "retry' g u' = Some z" by simp
      then show ?thesis by (rule prems(1))
    next
      case (Inr v)
      with Pair have "\<not> isl (fst (g u))" by simp
      then show ?thesis by blast
    qed
  qed
  done

lemma retry_always_failing: "\<forall>w. isl (fst (f w)) \<Longrightarrow> retry f w = None"
  using retry_Some_not_always_failing[of f w] by (cases "retry f w") auto

lemma retry_again: "f w = (Inl e, w') \<Longrightarrow> retry f w = retry f w'"
  by (simp add: retry.simps[of f w])

lemma retry_no_error: "retry f w \<noteq> Some (Inl e, w')"
  using retry_Some_is_success[of f w "(Inl e, w')"] by auto

text \<open>
  Claim C7, as stated: an operation that always fails with an unrecoverable error is
  attempted once and the error is propagated. On a balancer whose register call always
  fails so, the wrapped call does not come back with that error after one attempt.
\<close>

theorem C7_retry_propagates_counterexample:
  "add ex_unrecoverable () [''i-0a1b2c3d''] 0 \<noteq> Some (Inl UnrecoverableActorFailure, 1)"
  unfolding add_def by (rule retry_no_error)

text \<open>
  Claim C7, amended. The retry of the register and deregister calls repeats the call
  after every exception, an unrecoverable one included: a failed attempt is followed by
  another attempt in the world it left, no error is ever propagated, and on an operation
  that always fails the wrapped call never returns.
\<close>

theorem C7_retry_retries_every_error:
  "(register_instances api elb instances w = (Inl e, w1) \<longrightarrow>
      add api elb instances w = add api elb instances w1)
   \<and> (deregister_instances api elb instances w = (Inl e, w1) \<longrightarrow>
      remove api elb instances w = remove api elb instances w1)
   \<and> add api elb instances w \<noteq> Some (Inl e', w')
   \<and> remove api elb instances w \<noteq> Some (Inl e', w')
   \<and> ((\<forall>w. isl (fst (register_instances api elb instances w))) \<longrightarrow>
        add api elb instances w = None)
   \<and> ((\<forall>w. isl (fst (deregister_instances api elb instances w))) \<longrightarrow>
        remove api elb instances w = None)"
  unfolding add_def remove_def
  by (intro conjI impI retry_again retry_no_error retry_always_failing) auto

theorem C7_retry_retries_every_error_witness:
  "register_instances ex_unrecoverable () [''i-0a1b2c3d''] 0 = (Inl UnrecoverableActorFailure, 1)
   \<and> add ex_unrecoverable () [''i-0a1b2c3d''] 0 = add ex_unrecoverable () [''i-0a1b2c3d''] 1
   \<and> (\<forall>w. isl (fst (register_instances ex_unrecoverable () [''i-0a1b2c3d''] w)))
   \<and> add ex_unrecoverable () [''i-0a1b2c3d''] 0 = None"
proof -
  have a: "register_instances ex_unrecoverable () [''i-0a1b2c3d''] 0 = (Inl UnrecoverableActorFailure, 1)"
    by (simp add: ex_unrecoverable_def)
  have b: "\<forall>w. isl (fst (register_instances ex_unrecoverable () [''i-0a1b2c3d''] w))"
    by (simp add: ex_unrecoverable_def)
  from C7_retry_retries_every_error[of ex_unrecoverable "()" "[''i-0a1b2c3d'']" 0
      UnrecoverableActorFailure 1] a b
  show ?thesis by blast
qed

section \<open>Properties of dry runs and of the packagecloud deletion\<close>

lemma delete_versions_dry:
  "delete_versions api True repo older_than number_to_keep vs n deleted w = (r, w') \<Longrightarrow> w' = w"
  by (induction vs arbitrary: n deleted) (auto split: if_splits)

lemma delete_names_dry:
  "delete_names api True repo older_than number_to_keep all_packages names deleted w = (r, w')
   \<Longrightarrow> w' = w"
proof (induction names arbitrary: deleted r)
  case Nil
  then show ?case by simp
next
  case (Cons name names)
  show ?case
  proof (cases "get_package_versions api name all_packages")
    case (Inl e)
    with Cons.prems show ?thesis by simp
  next
    case (Inr vs)
    obtain r1 w1 where d: "delete_versions api True repo older_than number_to_keep vs
        (int (length vs)) deleted w = (r1, w1)"
      by (cases "delete_versions api True repo older_than number_to_keep vs
        (int (length vs)) deleted w")
    then have w1: "w1 = w" by (rule delete_versions_dry)
    show ?thesis
    proof (cases r1)
      case (Inl e)
      with Cons.prems Inr d w1 show ?thesis by simp
    next
      case (Inr deleted')
      with Cons.prems \<open>get_package_versions api name all_packages = Inr vs\<close> d w1
      have "delete_names api True repo older_than number_to_keep all_packages names deleted' w = (r, w')"
        by simp
      then show ?thesis by (rule Cons.IH)
    qed
  qed
qed

lemma PackagecloudBase_delete_dry:
  "snd (PackagecloudBase_delete api True packages_to_delete repo older_than number_to_keep w) = w"
proof -
  obtain r w' where d: "PackagecloudBase_delete api True packages_to_delete repo older_than number_to_keep w = (r, w')"
    by (cases "PackagecloudBase_delete api True packages_to_delete repo older_than number_to_keep w")
  then have "w' = w"
    by (auto simp: PackagecloudBase_delete_def split: sum.splits dest: delete_names_dry)
  with d show ?thesis by simp
qed

lemma delete_versions_dry_no_http:
  "delete_versions (api\<lparr>http_delete := h\<rparr>) True repo older_than number_to_keep vs n deleted w
   = delete_versions api True repo older_than number_to_keep vs n deleted w"
  by (induction vs arbitrary: n deleted) auto

lemma versions_named_no_http:
  "versions_named (api\<lparr>http_delete := h\<rparr>) name ps = versions_named api name ps"
  by (induction ps) (auto split: option.splits sum.splits)

lemma get_package_versions_no_http:
  "get_package_versions (api\<lparr>http_delete := h\<rparr>) name ps = get_package_versions api name ps"
  by (simp add: get_package_versions_def versions_named_no_http)

lemma delete_names_dry_no_http:
  "delete_names (api\<lparr>http_delete := h\<rparr>) True repo older_than number_to_keep all_packages names deleted w
   = delete_names api True repo older_than number_to_keep all_packages names deleted w"
proof (induction names arbitrary: deleted w)
  case Nil
  show ?case by simp
next
  case (Cons name names)
  show ?case
  proof (cases "get_package_versions api name all_packages")
    case (Inl e)
    then show ?thesis by (simp add: get_package_versions_no_http)
  next
    case (Inr vs)
    obtain r1 w1 where d: "delete_versions api True repo older_than number_to_keep vs
        (int (length vs)) deleted w = (r1, w1)"
      by (cases "delete_versions api True repo older_than number_to_keep vs
        (int (length vs)) deleted w")
    show ?thesis
      using Inr d Cons.IH
      by (cases r1) (simp_all add: get_package_versions_no_http delete_versions_dry_no_http)
  qed
qed

lemma PackagecloudBase_delete_dry_no_http:
  "PackagecloudBase_delete (api\<lparr>http_delete := h\<rparr>) True packages_to_delete repo older_than number_to_keep w
   = PackagecloudBase_delete api True packages_to_delete repo older_than number_to_keep w"
  by (simp add: PackagecloudBase_delete_def get_packages_list_to_delete_def delete_names_dry_no_http
        split: sum.splits option.splits)

text \<open>
  Claim C9. An actor in dry mode changes nothing outside. For \<open>RegisterInstance\<close>,
  \<open>DeregisterInstance\<close> and \<open>_delete\<close> with the dry flag set: whatever the register
  call, the deregister call and the HTTP delete would do (\<open>g\<close> and \<open>h\<close> are arbitrary),
  the run returns, leaves the world as it found it, and is the same run as with any other
  such call; so the call is not made.
\<close>

theorem C9_dry_run_mutates_nothing:
  assumes "reg_dry reg" and "dereg_dry dereg"
  shows "(\<exists>r. RegisterInstance_execute (api\<lparr>register_instances := g\<rparr>) reg w = Some (r, w))
       \<and> RegisterInstance_execute (api\<lparr>register_instances := g\<rparr>) reg w
           = RegisterInstance_execute api reg w
       \<and> (\<exists>r. DeregisterInstance_execute (api\<lparr>deregister_instances := g\<rparr>) dereg w = Some (r, w))
       \<and> DeregisterInstance_execute (api\<lparr>deregister_instances := g\<rparr>) dereg w
           = DeregisterInstance_execute api dereg w
       \<and> snd (PackagecloudBase_delete (pc\<lparr>http_delete := h\<rparr>) True packages_to_delete repo
                older_than number_to_keep u) = u
       \<and> PackagecloudBase_delete (pc\<lparr>http_delete := h\<rparr>) True packages_to_delete repo
            older_than number_to_keep u
           = PackagecloudBase_delete pc True packages_to_delete repo older_than number_to_keep u"
  using assms
  by (auto simp: RegisterInstance_execute_def DeregisterInstance_execute_def
        PackagecloudBase_delete_dry PackagecloudBase_delete_dry_no_http split: sum.splits)

theorem C9_dry_run_mutates_nothing_witness:
  "reg_dry ex_register \<and> dereg_dry ex_deregister
   \<and> RegisterInstance_execute ex_unrecoverable ex_register 0 = Some (Inr PNone, 0)
   \<and> DeregisterInstance_execute ex_unrecoverable ex_deregister 0 = Some (Inr PNone, 0)
   \<and> snd (PackagecloudBase_delete ex_repository True ''kingpin'' ''test'' 0 0 []) = []"
proof -
  have r: "reg_dry ex_register" by (simp add: ex_register_def)
  have d: "dereg_dry ex_deregister" by (simp add: ex_deregister_def)
  have a: "ex_unrecoverable\<lparr>register_instances := register_instances ex_unrecoverable\<rparr>
           = ex_unrecoverable"
    by simp
  have b: "ex_unrecoverable\<lparr>deregister_instances := deregister_instances ex_unrecoverable\<rparr>
           = ex_unrecoverable"
    by simp
  have c: "ex_repository\<lparr>http_delete := http_delete ex_repository\<rparr> = ex_repository"
    by simp
  have e1: "RegisterInstance_execute ex_unrecoverable ex_register 0 = Some (Inr PNone, 0)"
    by (simp add: RegisterInstance_execute_def ex_unrecoverable_def ex_register_def as_list_def)
  have e2: "DeregisterInstance_execute ex_unrecoverable ex_deregister 0 = Some (Inr PNone, 0)"
    by (simp add: DeregisterInstance_execute_def ex_unrecoverable_def ex_deregister_def
          as_list_def)
  from C9_dry_run_mutates_nothing[where reg = ex_register and dereg = ex_deregister
         and api = ex_unrecoverable and g = "register_instances ex_unrecoverable" and w = 0
         and pc = ex_repository and h = "http_delete ex_repository"
         and packages_to_delete = "''kingpin''" and repo = "''test''" and older_than = 0
         and number_to_keep = 0 and u = "[]", OF r d]
  have "snd (PackagecloudBase_delete ex_repository True ''kingpin'' ''test'' 0 0 []) = []"
    by (simp only: c)
  with r d e1 e2 show ?thesis by simp
qed

lemma delete_versions_bound:
  "delete_versions api d repo older_than keep vs n deleted w = (Inr deleted', w') \<Longrightarrow>
   \<exists>new. deleted' = deleted @ new \<and> set new \<subseteq> set vs \<and> int (length new) \<le> max 0 (n - keep)"
proof (induction vs arbitrary: n deleted w)
  case Nil
  then show ?case by simp
next
  case (Cons v vs)
  show ?case
  proof (cases "n \<le> keep")
    case True
    with Cons.prems show ?thesis by simp
  next
    case over: False
    show ?thesis
    proof (cases "older_than \<noteq> 0 \<and> datetime_now api w - ver_created_at v \<le> older_than * 1000000")
      case True
      with over Cons.prems have
        "delete_versions api d repo older_than keep vs n deleted w = (Inr deleted', w')" by simp
      from Cons.IH[OF this] show ?thesis by auto
    next
      case young: False
      have "\<exists>w1. delete_versions api d repo older_than keep vs (n - 1) (deleted @ [v]) w1
                  = (Inr deleted', w')"
      proof (cases d)
        case True
        with over young Cons.prems show ?thesis by auto
      next
        case False
        with over young Cons.prems show ?thesis
          by (auto split: prod.splits sum.splits)
      qed
      then obtain w1 where
        "delete_versions api d repo older_than keep vs (n - 1) (deleted @ [v]) w1 = (Inr deleted', w')"
        by blast
      from Cons.IH[OF this] obtain new where
        n: "deleted' = (deleted @ [v]) @ new" "set new \<subseteq> set vs"
           "int (length new) \<le> max 0 (n - 1 - keep)"
        by blast
      have "deleted' = deleted @ (v # new)" using n(1) by simp
      moreover have "set (v # new) \<subseteq> set (v # vs)" using n(2) by auto
      moreover have "int (length (v # new)) \<le> max 0 (n - keep)" using n(3) over by simp
      ultimately show ?thesis by blast
    qed
  qed
qed

lemma versions_named_props:
  "versions_named api name ps = Inr vs \<Longrightarrow>
   (\<forall>v\<in>set vs. ver_name v = name) \<and> length vs = length (filter (\<lambda>p. pkg_name p = name) ps)"
  by (induction ps arbitrary: vs) (auto split: if_splits option.splits sum.splits)

lemma get_package_versions_props:
  assumes "get_package_versions api name ps = Inr vs"
  shows "(\<forall>v\<in>set vs. ver_name v = name) \<and> int (length vs) = versions_in_repo name ps"
proof -
  from assms obtain vs0 where v0: "versions_named api name ps = Inr vs0"
    and vs: "vs = sort_key (\<lambda>x. - ver_created_at x) vs0"
    by (auto simp: get_package_versions_def split: sum.splits)
  from versions_named_props[OF v0] vs show ?thesis by (simp add: versions_in_repo_def)
qed

lemma delete_names_bound:
  "distinct names \<Longrightarrow>
   delete_names api d repo older_than keep all_packages names deleted w = (Inr deleted', w') \<Longrightarrow>
   versions_deleted x deleted' \<le> versions_deleted x deleted
      + (if x \<in> set names then max 0 (versions_in_repo x all_packages - keep) else 0)"
proof (induction names arbitrary: deleted w)
  case Nil
  then show ?case by simp
next
  case (Cons name names)
  from Cons.prems(2) obtain vs where vs: "get_package_versions api name all_packages = Inr vs"
    by (cases "get_package_versions api name all_packages") auto
  obtain r1 w1 where d: "delete_versions api d repo older_than keep vs (int (length vs)) deleted w = (r1, w1)"
    by (cases "delete_versions api d repo older_than keep vs (int (length vs)) deleted w")
  with Cons.prems(2) vs obtain deleted1 where r1: "r1 = Inr deleted1"
    by (cases r1) auto
  with Cons.prems(2) vs d have rest:
    "delete_names api d repo older_than keep all_packages names deleted1 w1 = (Inr deleted', w')"
    by simp
  from Cons.prems(1) have dn: "distinct names" and nn: "name \<notin> set names" by auto
  note IH = Cons.IH[OF dn rest]
  from delete_versions_bound[OF d[unfolded r1]] obtain new where
    new: "deleted1 = deleted @ new" "set new \<subseteq> set vs"
         "int (length new) \<le> max 0 (int (length vs) - keep)"
    by blast
  from get_package_versions_props[OF vs] have
    nm: "\<forall>v\<in>set vs. ver_name v = name" and len: "int (length vs) = versions_in_repo name all_packages"
    by auto
  have all_new: "\<forall>v\<in>set new. ver_name v = name" using new(2) nm by blast
  show ?case
  proof (cases "x = name")
    case True
    have "filter (\<lambda>v. ver_name v = name) new = new" using all_new by (simp add: filter_id_conv)
    then have "versions_deleted x deleted1 = versions_deleted x deleted + int (length new)"
      using new(1) True by (simp add: versions_deleted_def)
    with IH True nn new(3) len show ?thesis by simp
  next
    case False
    have "filter (\<lambda>v. ver_name v = x) new = []" using all_new False by (auto simp: filter_empty_conv)
    then have "versions_deleted x deleted1 = versions_deleted x deleted"
      using new(1) by (simp add: versions_deleted_def)
    with IH False show ?thesis by simp
  qed
qed

text \<open>
  The list that \<open>_delete\<close> returns, when it returns one, holds of each package at most
  the versions beyond \<open>number_to_keep\<close>.
\<close>

lemma returned_list_keeps_number_to_keep:
  assumes "http_get_packages api repo w = Inr all_packages"
    and "PackagecloudBase_delete api dry_flag packages_to_delete repo older_than number_to_keep w
         = (Inr deleted_packages, w')"
  shows "min number_to_keep (versions_in_repo name all_packages)
         \<le> versions_in_repo name all_packages - versions_deleted name deleted_packages"
proof -
  from assms obtain names where
    names: "get_packages_list_to_delete api packages_to_delete all_packages = Inr names"
    and run: "delete_names api dry_flag repo older_than number_to_keep all_packages names [] w
              = (Inr deleted_packages, w')"
    by (auto simp: PackagecloudBase_delete_def split: sum.splits)
  from names have "distinct names"
    by (auto simp: get_packages_list_to_delete_def split: option.splits)
  from delete_names_bound[OF this run, of name] show ?thesis
    by (auto simp: versions_deleted_def split: if_splits)
qed

text \<open>
  On the example repository, keeping two of the three versions: one version is deleted,
  by one HTTP call. It is the newest one, since the versions are walked newest first.
\<close>

lemma ex_run:
  "PackagecloudBase_delete ex_repository False ''kingpin'' ''test'' 0 2 []
   = (Inr [\<lparr>ver_created_at = 3, ver_distro_version = ''ubuntu/trusty'',
             ver_filename = ''kingpin_0.3_all.deb'', ver_name = ''kingpin''\<rparr>],
      [(''test'', ''ubuntu/trusty'', ''kingpin_0.3_all.deb'')])"
  by (simp add: PackagecloudBase_delete_def ex_repository_def ex_listing_def
        get_packages_list_to_delete_def get_package_versions_def last_segment_def)

text \<open>
  The HTTP deletes that a run makes, whether it returns or raises: the inner loop makes
  at most as many as \<open>number_in_repo\<close> exceeds \<open>number_to_keep\<close>, each for a version of
  the list it walks.
\<close>

lemma journalled_simps:
  "re_compile (journalled api) = re_compile api"
  "strptime (journalled api) = strptime api"
  "datetime_now (journalled api) (w, j) = datetime_now api w"
  "http_get_packages (journalled api) repo (w, j) = http_get_packages api repo w"
  "http_delete (journalled api) repo d f (w, j)
     = (fst (http_delete api repo d f w), (snd (http_delete api repo d f w), j @ [(repo, d, f)]))"
  by (simp_all add: journalled_def split: prod.splits)

lemma versions_named_journalled:
  "versions_named (journalled api) name ps = versions_named api name ps"
  by (induction ps) (auto simp: journalled_simps split: option.splits sum.splits)

lemma get_package_versions_journalled:
  "get_package_versions (journalled api) name ps = get_package_versions api name ps"
  by (simp add: get_package_versions_def versions_named_journalled)

lemma delete_versions_calls:
  "delete_versions (journalled api) d repo older_than keep vs n deleted (w, j) = (res, (w', j')) \<Longrightarrow>
   \<exists>gone. j' = j @ map (delete_call repo) gone \<and> set gone \<subseteq> set vs
          \<and> int (length gone) \<le> max 0 (n - keep)"
proof (induction vs arbitrary: n deleted w j)
  case Nil
  then have "j' = j @ map (delete_call repo) []" by simp
  then show ?case by (metis empty_subsetI list.set(1) list.size(3) max.cobounded1 of_nat_0)
next
  case (Cons v vs)
  show ?case
  proof (cases "n \<le> keep")
    case True
    with Cons.prems have "j' = j @ map (delete_call repo) []" by simp
    then show ?thesis by (metis empty_subsetI list.set(1) list.size(3) max.cobounded1 of_nat_0)
  next
    case over: False
    show ?thesis
    proof (cases "older_than \<noteq> 0 \<and> datetime_now api w - ver_created_at v \<le> older_than * 1000000")
      case True
      with over Cons.prems have
        "delete_versions (journalled api) d repo older_than keep vs n deleted (w, j) = (res, (w', j'))"
        by (simp add: journalled_simps)
      from Cons.IH[OF this] show ?thesis by auto
    next
      case young: False
      show ?thesis
      proof (cases d)
        case True
        with over young Cons.prems have
          "delete_versions (journalled api) d repo older_than keep vs (n - 1) (deleted @ [v]) (w, j)
           = (res, (w', j'))"
          by (auto simp: journalled_simps split: if_splits)
        from Cons.IH[OF this] obtain gone where
          g: "j' = j @ map (delete_call repo) gone" "set gone \<subseteq> set vs"
             "int (length gone) \<le> max 0 (n - 1 - keep)"
          by blast
        have "set gone \<subseteq> set (v # vs)" using g(2) by auto
        moreover have "int (length gone) \<le> max 0 (n - keep)" using g(3) by simp
        ultimately show ?thesis using g(1) by blast
      next
        case False
        obtain r w1 where h: "http_delete api repo (ver_distro_version v) (ver_filename v) w = (r, w1)"
          by (cases "http_delete api repo (ver_distro_version v) (ver_filename v) w")
        let ?j1 = "j @ [delete_call repo v]"
        show ?thesis
        proof (cases r)
          case (Inl e)
          with False over young Cons.prems h have "j' = j @ map (delete_call repo) [v]"
            by (auto simp: journalled_simps delete_call_def split: if_splits)
          moreover have "int (length [v]) \<le> max 0 (n - keep)" using over by simp
          moreover have "set [v] \<subseteq> set (v # vs)" by simp
          ultimately show ?thesis by blast
        next
          case (Inr u)
          with False over young Cons.prems h have
            "delete_versions (journalled api) d repo older_than keep vs (n - 1) (deleted @ [v]) (w1, ?j1)
             = (res, (w', j'))"
            by (auto simp: journalled_simps delete_call_def split: if_splits)
          from Cons.IH[OF this] obtain gone where
            g: "j' = ?j1 @ map (delete_call repo) gone" "set gone \<subseteq> set vs"
               "int (length gone) \<le> max 0 (n - 1 - keep)"
            by blast
          have "j' = j @ map (delete_call repo) (v # gone)" using g(1) by simp
          moreover have "set (v # gone) \<subseteq> set (v # vs)" using g(2) by auto
          moreover have "int (length (v # gone)) \<le> max 0 (n - keep)" using g(3) over by simp
          ultimately show ?thesis by blast
        qed
      qed
    qed
  qed
qed

lemma delete_names_calls:
  "distinct names \<Longrightarrow>
   delete_names (journalled api) d repo older_than keep all_packages names deleted (w, j)
     = (res, (w', j')) \<Longrightarrow>
   \<exists>gone. j' = j @ map (delete_call repo) gone \<and> list_all (listed api all_packages) gone
     \<and> (\<forall>x. versions_deleted x gone
              \<le> (if x \<in> set names then max 0 (versions_in_repo x all_packages - keep) else 0))"
proof (induction names arbitrary: deleted w j)
  case Nil
  then have "j' = j @ map (delete_call repo) []" by simp
  moreover have "\<forall>x. versions_deleted x [] \<le> (0::int)" by (simp add: versions_deleted_def)
  moreover have "list_all (listed api all_packages) []" by simp
  ultimately show ?case by (metis empty_iff list.set(1))
next
  case (Cons name names)
  from Cons.prems(1) have dn: "distinct names" and nn: "name \<notin> set names" by auto
  show ?case
  proof (cases "get_package_versions api name all_packages")
    case (Inl e)
    with Cons.prems(2) have "j' = j @ map (delete_call repo) []"
      by (simp add: get_package_versions_journalled)
    moreover have "\<forall>x. versions_deleted x []
        \<le> (if x \<in> set (name # names) then max 0 (versions_in_repo x all_packages - keep) else 0)"
      by (simp add: versions_deleted_def)
    moreover have "list_all (listed api all_packages) []" by simp
    ultimately show ?thesis by blast
  next
    case (Inr vs)
    from get_package_versions_props[OF Inr] have
      nm: "\<forall>v\<in>set vs. ver_name v = name" and len: "int (length vs) = versions_in_repo name all_packages"
      by auto
    obtain r1 w1 j1 where dv:
      "delete_versions (journalled api) d repo older_than keep vs (int (length vs)) deleted (w, j)
       = (r1, (w1, j1))"
      by (metis surj_pair)
    from delete_versions_calls[OF dv] obtain new where
      new: "j1 = j @ map (delete_call repo) new" "set new \<subseteq> set vs"
           "int (length new) \<le> max 0 (int (length vs) - keep)"
      by blast
    have all_new: "\<forall>v\<in>set new. ver_name v = name" using new(2) nm by blast
    have lst: "list_all (listed api all_packages) new"
      using new(2) all_new Inr by (auto simp: list_all_iff listed_def)
    have cnt_name: "versions_deleted name new = int (length new)"
      using all_new by (simp add: versions_deleted_def filter_id_conv)
    have cnt_other: "versions_deleted x new = 0" if "x \<noteq> name" for x
      using all_new that by (auto simp: versions_deleted_def filter_empty_conv)
    have app: "versions_deleted x (new @ more) = versions_deleted x new + versions_deleted x more"
      for x more
      by (simp add: versions_deleted_def)
    show ?thesis
    proof (cases r1)
      case (Inl e)
      with Cons.prems(2) Inr dv have "j' = j1"
        by (simp add: get_package_versions_journalled)
      with new(1) have 1: "j' = j @ map (delete_call repo) new" by simp
      have "\<forall>x. versions_deleted x new
          \<le> (if x \<in> set (name # names) then max 0 (versions_in_repo x all_packages - keep) else 0)"
      proof
        fix x
        show "versions_deleted x new
          \<le> (if x \<in> set (name # names) then max 0 (versions_in_repo x all_packages - keep) else 0)"
          using cnt_name cnt_other[of x] new(3) len by (cases "x = name") auto
      qed
      with 1 lst show ?thesis by blast
    next
      case (Inr deleted1)
      with Cons.prems(2) \<open>get_package_versions api name all_packages = Inr vs\<close> dv have
        "delete_names (journalled api) d repo older_than keep all_packages names deleted1 (w1, j1)
         = (res, (w', j'))"
        by (simp add: get_package_versions_journalled)
      from Cons.IH[OF dn this] obtain more where
        more_j: "j' = j1 @ map (delete_call repo) more"
          and lm: "list_all (listed api all_packages) more"
          and more_b: "\<forall>x. versions_deleted x more
             \<le> (if x \<in> set names then max 0 (versions_in_repo x all_packages - keep) else 0)"
        by blast
      have 1: "j' = j @ map (delete_call repo) (new @ more)" using more_j new(1) by simp
      have 2: "list_all (listed api all_packages) (new @ more)" using lst lm by simp
      have "\<forall>x. versions_deleted x (new @ more)
          \<le> (if x \<in> set (name # names) then max 0 (versions_in_repo x all_packages - keep) else 0)"
      proof
        fix x
        show "versions_deleted x (new @ more)
          \<le> (if x \<in> set (name # names) then max 0 (versions_in_repo x all_packages - keep) else 0)"
        proof (cases "x = name")
          case True
          with more_b nn have "versions_deleted x more \<le> 0" by (metis)
          with True cnt_name new(3) len show ?thesis by (simp add: app)
        next
          case False
          with more_b cnt_other[OF False] show ?thesis by (simp add: app)
        qed
      qed
      with 1 2 show ?thesis by blast
    qed
  qed
qed

lemma delete_calls_bound:
  assumes "http_get_packages api repo w = Inr all_packages"
    and "PackagecloudBase_delete (journalled api) dry_flag packages_to_delete repo older_than
           number_to_keep (w, []) = (res, (w', calls))"
  shows "\<exists>gone. calls = map (delete_call repo) gone \<and> list_all (listed api all_packages) gone
       \<and> (\<forall>name. versions_deleted name gone
                    \<le> max 0 (versions_in_repo name all_packages - number_to_keep))"
proof (cases "get_packages_list_to_delete api packages_to_delete all_packages")
  case (Inl e)
  with assms have "calls = map (delete_call repo) []"
    by (simp add: PackagecloudBase_delete_def journalled_simps get_packages_list_to_delete_def
          split: option.splits)
  moreover have "\<forall>name. versions_deleted name []
                    \<le> max 0 (versions_in_repo name all_packages - number_to_keep)"
    by (simp add: versions_deleted_def)
  moreover have "list_all (listed api all_packages) []" by simp
  ultimately show ?thesis by blast
next
  case (Inr names)
  then have dn: "distinct names"
    by (auto simp: get_packages_list_to_delete_def split: option.splits)
  from Inr have "get_packages_list_to_delete (journalled api) packages_to_delete all_packages = Inr names"
    by (simp add: get_packages_list_to_delete_def journalled_simps)
  with assms have
    "delete_names (journalled api) dry_flag repo older_than number_to_keep all_packages names []
       (w, []) = (res, (w', calls))"
    by (simp add: PackagecloudBase_delete_def journalled_simps)
  from delete_names_calls[OF dn this] obtain gone where
    g: "calls = map (delete_call repo) gone" "list_all (listed api all_packages) gone"
       "\<forall>x. versions_deleted x gone
            \<le> (if x \<in> set names then max 0 (versions_in_repo x all_packages - number_to_keep) else 0)"
    by auto
  have "\<forall>name. versions_deleted name gone
                    \<le> max 0 (versions_in_repo name all_packages - number_to_keep)"
  proof
    fix name
    from g(3)[rule_format, of name]
    show "versions_deleted name gone \<le> max 0 (versions_in_repo name all_packages - number_to_keep)"
      by (auto split: if_splits)
  qed
  with g(1,2) show ?thesis by blast
qed

lemma versions_named_origin:
  "versions_named api name ps = Inr vs \<Longrightarrow> v \<in> set vs \<Longrightarrow>
   \<exists>q\<in>set ps. pkg_name q = ver_name v \<and> file_of q = (ver_distro_version v, ver_filename v)"
  by (induction ps arbitrary: vs)
     (auto simp: file_of_def split: if_splits option.splits sum.splits)

lemma listed_origin:
  assumes "listed api all_packages v"
  shows "\<exists>q\<in>set all_packages. pkg_name q = ver_name v
           \<and> file_of q = (ver_distro_version v, ver_filename v)"
proof -
  from assms obtain vs0 where "versions_named api (ver_name v) all_packages = Inr vs0" "v \<in> set vs0"
    by (auto simp: listed_def get_package_versions_def split: sum.splits)
  then show ?thesis by (rule versions_named_origin)
qed

lemma surviving_bound:
  assumes d: "distinct (map file_of all_packages)"
    and calls: "calls = map (delete_call repo) gone"
    and lst: "list_all (listed api all_packages) gone"
  shows "versions_in_repo name all_packages - versions_deleted name gone
         \<le> int (length (surviving repo calls name all_packages))"
proof -
  let ?named = "filter (\<lambda>p. pkg_name p = name) all_packages"
  let ?hit = "filter (\<lambda>p. (repo, file_of p) \<in> set calls) ?named"
  let ?gone = "filter (\<lambda>v. ver_name v = name) gone"
  have inj: "inj_on file_of (set all_packages)" and dist: "distinct all_packages"
    using d by (simp_all add: distinct_map)
  have sub: "file_of ` set ?hit \<subseteq> (\<lambda>v. (ver_distro_version v, ver_filename v)) ` set ?gone"
  proof
    fix k assume "k \<in> file_of ` set ?hit"
    then obtain p where p: "p \<in> set all_packages" "pkg_name p = name" "(repo, file_of p) \<in> set calls"
      and k: "k = file_of p" by auto
    from p(3) calls obtain g where g: "g \<in> set gone" "(repo, file_of p) = delete_call repo g" by auto
    from lst g(1) have "listed api all_packages g" by (simp add: list_all_iff)
    from listed_origin[OF this] obtain q where
      q: "q \<in> set all_packages" "pkg_name q = ver_name g"
         "file_of q = (ver_distro_version g, ver_filename g)"
      by blast
    from g(2) q(3) have "file_of p = file_of q" by (simp add: delete_call_def)
    with inj p(1) q(1) have "p = q" by (simp add: inj_on_def)
    with q(2) p(2) have "ver_name g = name" by simp
    with g(1) have "g \<in> set ?gone" by simp
    moreover have "k = (ver_distro_version g, ver_filename g)" using k g(2) by (simp add: delete_call_def)
    ultimately show "k \<in> (\<lambda>v. (ver_distro_version v, ver_filename v)) ` set ?gone" by blast
  qed
  have "distinct ?hit" using dist by simp
  then have "length ?hit = card (set ?hit)" by (rule distinct_card[symmetric])
  also have "\<dots> = card (file_of ` set ?hit)"
    using inj by (intro card_image[symmetric]) (auto simp: inj_on_def)
  also have "\<dots> \<le> card ((\<lambda>v. (ver_distro_version v, ver_filename v)) ` set ?gone)"
    using sub by (intro card_mono) auto
  also have "\<dots> \<le> card (set ?gone)" by (intro card_image_le) simp
  also have "\<dots> \<le> length ?gone" by (rule card_length)
  finally have hit: "int (length ?hit) \<le> versions_deleted name gone"
    by (simp add: versions_deleted_def)
  have "length ?hit + length (surviving repo calls name all_packages) = length ?named"
    unfolding surviving_def by (rule sum_length_filter_compl)
  then have "versions_in_repo name all_packages
             = int (length ?hit) + int (length (surviving repo calls name all_packages))"
    by (simp add: versions_in_repo_def)
  with hit show ?thesis by simp
qed

text \<open>
  Claim C10. Of every package the deletion leaves at least \<open>number_to_keep\<close> versions, or
  all of them when there are fewer. Let the service keep a journal of the HTTP deletes it
  receives, and let \<open>_delete\<close> run from an empty journal, in any repository, with any
  pattern, age limit, dry flag and \<open>number_to_keep\<close>, to whatever end: a returned list,
  or an exception of the service in the middle. Then the deletes received are the deletes
  of a list of listed versions that holds, of each name, so few that the versions in the
  listing less these are at least the smaller of \<open>number_to_keep\<close> and the number of
  versions in the listing. And when the listing names each file once, the entries of each
  name whose file no delete addressed are at least that many.
\<close>

theorem C10_delete_keeps_number_to_keep:
  assumes "http_get_packages api repo w = Inr all_packages"
    and "PackagecloudBase_delete (journalled api) dry_flag packages_to_delete repo older_than
           number_to_keep (w, []) = (res, (w', calls))"
  shows "(\<exists>gone. calls = map (delete_call repo) gone \<and> list_all (listed api all_packages) gone
            \<and> (\<forall>name. min number_to_keep (versions_in_repo name all_packages)
                         \<le> versions_in_repo name all_packages - versions_deleted name gone))
       \<and> (distinct (map file_of all_packages) \<longrightarrow>
            (\<forall>name. min number_to_keep (versions_in_repo name all_packages)
                       \<le> int (length (surviving repo calls name all_packages))))"
proof -
  from delete_calls_bound[OF assms] obtain gone where
    g: "calls = map (delete_call repo) gone" "list_all (listed api all_packages) gone"
       "\<forall>name. versions_deleted name gone
                    \<le> max 0 (versions_in_repo name all_packages - number_to_keep)"
    by blast
  have b: "min number_to_keep (versions_in_repo name all_packages)
           \<le> versions_in_repo name all_packages - versions_deleted name gone" for name
    using g(3)[rule_format, of name] by (auto simp: versions_deleted_def)
  have s: "min number_to_keep (versions_in_repo name all_packages)
           \<le> int (length (surviving repo calls name all_packages))"
    if "distinct (map file_of all_packages)" for name
    using surviving_bound[OF that g(1,2), of name] b[of name] by simp
  from g(1,2) b s show ?thesis by blast
qed

text \<open>
  On the example repository with the service that fails on its second delete, keeping
  one version of three: two deletes are received, the run raises, and one version
  survives.
\<close>

lemma ex_failed_run:
  "PackagecloudBase_delete (journalled ex_flaky) False ''kingpin'' ''test'' 0 1 (0, [])
   = (Inl (ExternalError ''503''),
      (2, [(''test'', ''ubuntu/trusty'', ''kingpin_0.3_all.deb''),
           (''test'', ''ubuntu/trusty'', ''kingpin_0.2_all.deb'')]))"
  by (simp add: PackagecloudBase_delete_def ex_flaky_def ex_listing_def journalled_def
        get_packages_list_to_delete_def get_package_versions_def last_segment_def)

lemma ex_listing_files: "distinct (map file_of ex_listing)"
  by (simp add: ex_listing_def file_of_def last_segment_def)

lemma ex_survivors:
  "surviving ''test'' [(''test'', ''ubuntu/trusty'', ''kingpin_0.3_all.deb''),
                       (''test'', ''ubuntu/trusty'', ''kingpin_0.2_all.deb'')] ''kingpin'' ex_listing
   = [\<lparr>pkg_name = ''kingpin'', pkg_created_at = ''2015-01-01T00:00:00.000Z'',
       pkg_distro_version = ''ubuntu/trusty'',
       pkg_package_html_url = ''/nextdoor/test/packages/ubuntu/trusty/kingpin_0.1_all.deb'',
       pkg_version = ''0.1''\<rparr>]"
  by (simp add: surviving_def ex_listing_def file_of_def last_segment_def)

theorem C10_delete_keeps_number_to_keep_witness:
  "http_get_packages ex_flaky ''test'' 0 = Inr ex_listing
   \<and> PackagecloudBase_delete (journalled ex_flaky) False ''kingpin'' ''test'' 0 1 (0, [])
       = (Inl (ExternalError ''503''),
          (2, [(''test'', ''ubuntu/trusty'', ''kingpin_0.3_all.deb''),
               (''test'', ''ubuntu/trusty'', ''kingpin_0.2_all.deb'')]))
   \<and> distinct (map file_of ex_listing)
   \<and> min 1 (versions_in_repo ''kingpin'' ex_listing)
       \<le> int (length (surviving ''test''
                          [(''test'', ''ubuntu/trusty'', ''kingpin_0.3_all.deb''),
                           (''test'', ''ubuntu/trusty'', ''kingpin_0.2_all.deb'')]
                          ''kingpin'' ex_listing))"
proof -
  have g: "http_get_packages ex_flaky ''test'' 0 = Inr ex_listing" by (simp add: ex_flaky_def)
  from C10_delete_keeps_number_to_keep[OF g ex_failed_run] ex_listing_files g ex_failed_run
  show ?thesis by blast
qed

section \<open>Properties of the construction\<close>

lemma BaseActor_init_dry:
  "BaseActor_init req cls description opts d = Inr self \<Longrightarrow>
   obj_dry self = d \<and> obj_actions self = []"
  by (auto simp: BaseActor_init_def split: if_splits)

lemma construction_dry:
  "(\<forall>a. get_actor reg config d = Inr a \<longrightarrow>
        obj_dry a = d \<and> list_all (\<lambda>x. obj_dry x = d) (descendants a))"
  "(\<forall>a. BaseGroupActor_init reg cls description opts d = Inr a \<longrightarrow>
        obj_dry a = d \<and> list_all (\<lambda>x. obj_dry x = d) (descendants a))"
  "(\<forall>as. build_actions reg acts d = Inr as \<longrightarrow>
        list_all (\<lambda>x. obj_dry x = d) (descendants_of_all as))"
proof (induction reg config d and reg cls description opts d and reg acts d
       rule: get_actor_BaseGroupActor_init_build_actions.induct)
  case (1 reg config dry_flag)
  show ?case
  proof (intro allI impI)
    fix a assume a: "get_actor reg config dry_flag = Inr a"
    then obtain cfg where cfg: "config = JDict cfg"
      by (cases config) (auto simp: get_actor.simps)
    from a cfg obtain actor_string dsc opts where
      m: "map_of cfg ''actor'' = Some (JStr actor_string)"
         "map_of cfg ''desc'' = Some (JStr dsc)"
         "map_of cfg ''options'' = Some (JDict opts)"
      by (auto simp: get_actor.simps split: option.splits jval.splits)
    from a cfg m obtain c where c: "reg actor_string = Some c"
      by (auto simp: get_actor.simps split: option.splits)
    show "obj_dry a = dry_flag \<and> list_all (\<lambda>x. obj_dry x = dry_flag) (descendants a)"
    proof (cases c)
      case GroupClass
      with a cfg m c have "BaseGroupActor_init reg actor_string dsc opts dry_flag = Inr a"
        by (simp add: get_actor.simps)
      moreover have "\<forall>a. BaseGroupActor_init reg actor_string dsc opts dry_flag = Inr a \<longrightarrow>
          obj_dry a = dry_flag \<and> list_all (\<lambda>x. obj_dry x = dry_flag) (descendants a)"
        using "1.IH" cfg m c GroupClass by simp
      ultimately show ?thesis by blast
    next
      case (LeafClass validate)
      with a cfg m c have "BaseActor_init [] actor_string dsc opts dry_flag = Inr a"
        by (auto simp: get_actor.simps split: option.splits)
      from BaseActor_init_dry[OF this] show ?thesis by (cases a) simp
    qed
  qed
next
  case (2 reg cls description opts dry_flag)
  show ?case
  proof (intro allI impI)
    fix a assume a: "BaseGroupActor_init reg cls description opts dry_flag = Inr a"
    then obtain self where s: "BaseActor_init [''acts''] cls description opts dry_flag = Inr self"
      by (auto simp: BaseGroupActor_init.simps split: sum.splits)
    from BaseActor_init_dry[OF s] have sd: "obj_dry self = dry_flag" by simp
    from a s obtain acts where acts: "map_of opts ''acts'' = Some (JList acts)"
      by (auto simp: BaseGroupActor_init.simps split: option.splits jval.splits)
    from a s acts obtain actions where b: "build_actions reg acts (obj_dry self) = Inr actions"
      and a_eq: "a = ActorObject (obj_class self) (obj_desc self) (obj_options self) (obj_dry self) actions"
      by (auto simp: BaseGroupActor_init.simps split: sum.splits)
    from "2.IH"[OF s acts] b have "list_all (\<lambda>x. obj_dry x = obj_dry self) (descendants_of_all actions)"
      by simp
    with a_eq sd show "obj_dry a = dry_flag \<and> list_all (\<lambda>x. obj_dry x = dry_flag) (descendants a)"
      by simp
  qed
next
  case (3 reg dry_flag)
  show ?case by simp
next
  case (4 reg act acts dry_flag)
  show ?case
  proof (intro allI impI)
    fix as assume as: "build_actions reg (act # acts) dry_flag = Inr as"
    then obtain actor actions where
      g: "get_actor reg act dry_flag = Inr actor" and
      b: "build_actions reg acts dry_flag = Inr actions" and eq: "as = actor # actions"
      by (auto split: sum.splits)
    from "4.IH"(1) g have "obj_dry actor = dry_flag \<and> list_all (\<lambda>x. obj_dry x = dry_flag) (descendants actor)"
      by simp
    moreover from "4.IH"(2)[OF g] b have "list_all (\<lambda>x. obj_dry x = dry_flag) (descendants_of_all actions)"
      by simp
    ultimately show "list_all (\<lambda>x. obj_dry x = dry_flag) (descendants_of_all as)"
      using eq by simp
  qed
qed

lemma build_actions_children:
  "build_actions reg acts d = Inr actions \<Longrightarrow>
   list_all2 (\<lambda>act a. get_actor reg act d = Inr a) acts actions"
  by (induction acts arbitrary: actions) (auto split: sum.splits)

lemma build_actions_fails:
  "i < length acts \<Longrightarrow> get_actor reg (acts ! i) d = Inl e \<Longrightarrow> \<exists>e'. build_actions reg acts d = Inl e'"
proof (induction acts arbitrary: i)
  case Nil
  then show ?case by simp
next
  case (Cons act acts)
  show ?case
  proof (cases i)
    case 0
    with Cons.prems show ?thesis by simp
  next
    case (Suc j)
    with Cons.prems Cons.IH[of j] obtain e' where "build_actions reg acts d = Inl e'" by auto
    then show ?thesis by (auto split: sum.splits)
  qed
qed

lemma ex_third_invalid: "get_actor ex_registry (ex_acts ! 2) False = Inl InvalidOptions"
  by (simp add: get_actor.simps ex_acts_def ex_sleep_def ex_registry_def)

lemma ex_first_valid:
  "get_actor ex_registry (ex_acts ! 0) False
   = Inr (ActorObject ''misc.Sleep'' ''one'' [(''sleep'', JInt 1)] False [])"
  by (simp add: get_actor.simps ex_acts_def ex_sleep_def ex_registry_def BaseActor_init_def)

lemma ex_nested_built:
  "BaseGroupActor_init ex_registry ''group.Sync'' ''outer'' ex_nested True
   = Inr (ActorObject ''group.Sync'' ''outer'' ex_nested True
           [ActorObject ''misc.Sleep'' ''one'' [(''sleep'', JInt 1)] True [],
            ActorObject ''group.Async'' ''inner'' [(''acts'', JList [ex_sleep ''two'' (JInt 2)])] True
              [ActorObject ''misc.Sleep'' ''two'' [(''sleep'', JInt 2)] True []]])"
  by (simp add: get_actor.simps BaseGroupActor_init.simps ex_nested_def ex_sleep_def ex_registry_def
        BaseActor_init_def)

text \<open>
  Claim C4. The children of a group get the group's dry-run flag. When the constructor of
  a group, called with the flag \<open>dry_flag\<close>, returns the group, the group carries that
  flag, each of its children carries it, and so does every actor further down the tree.
\<close>

theorem C4_children_inherit_dry_flag:
  assumes "BaseGroupActor_init reg cls description opts dry_flag = Inr grp"
  shows "obj_dry grp = dry_flag
       \<and> list_all (\<lambda>child. obj_dry child = dry_flag) (obj_actions grp)
       \<and> list_all (\<lambda>x. obj_dry x = dry_flag) (descendants grp)"
proof -
  from construction_dry(2)[of reg cls description opts dry_flag] assms
  have d: "obj_dry grp = dry_flag" "list_all (\<lambda>x. obj_dry x = dry_flag) (descendants grp)"
    by auto
  have "set (obj_actions grp) \<subseteq> set (descendants grp)"
  proof (cases grp)
    case (ActorObject c ds os f actions)
    have "set as \<subseteq> set (descendants_of_all as)" for as :: "actor_object list"
      by (induction as) auto
    with ActorObject show ?thesis by simp
  qed
  with d show ?thesis by (auto simp: list_all_iff)
qed

theorem C4_children_inherit_dry_flag_witness:
  "BaseGroupActor_init ex_registry ''group.Sync'' ''outer'' ex_nested True
   = Inr (ActorObject ''group.Sync'' ''outer'' ex_nested True
           [ActorObject ''misc.Sleep'' ''one'' [(''sleep'', JInt 1)] True [],
            ActorObject ''group.Async'' ''inner'' [(''acts'', JList [ex_sleep ''two'' (JInt 2)])] True
              [ActorObject ''misc.Sleep'' ''two'' [(''sleep'', JInt 2)] True []]])
   \<and> list_all (\<lambda>x. obj_dry x = True)
        (descendants (ActorObject ''group.Sync'' ''outer'' ex_nested True
           [ActorObject ''misc.Sleep'' ''one'' [(''sleep'', JInt 1)] True [],
            ActorObject ''group.Async'' ''inner'' [(''acts'', JList [ex_sleep ''two'' (JInt 2)])] True
              [ActorObject ''misc.Sleep'' ''two'' [(''sleep'', JInt 2)] True []]]))"
  using C4_children_inherit_dry_flag[OF ex_nested_built] ex_nested_built by blast

text \<open>
  Claim C8. A group is not constructed unless every child is. When the specification of
  any child is refused by \<open>get_actor\<close>, the constructor of the group raises: it returns
  no group, so there is no actor whose \<open>execute\<close> could be called, and the constructors
  themselves call none (they are functions of the specification and the flag alone).
\<close>

theorem C8_invalid_child_fails_construction:
  assumes "map_of opts ''acts'' = Some (JList acts)"
    and "i < length acts"
    and "get_actor reg (acts ! i) dry_flag = Inl e"
  shows "\<exists>e'. BaseGroupActor_init reg cls description opts dry_flag = Inl e'"
proof (cases "BaseActor_init [''acts''] cls description opts dry_flag")
  case (Inl e0)
  then show ?thesis by (simp add: BaseGroupActor_init.simps)
next
  case (Inr self)
  from BaseActor_init_dry[OF Inr] have "obj_dry self = dry_flag" by simp
  with build_actions_fails[OF assms(2,3)] obtain e' where
    "build_actions reg acts (obj_dry self) = Inl e'" by auto
  with Inr assms(1) show ?thesis by (simp add: BaseGroupActor_init.simps)
qed

theorem C8_invalid_child_fails_construction_witness:
  "map_of [(''acts'', JList ex_acts)] ''acts'' = Some (JList ex_acts)
   \<and> 2 < length ex_acts
   \<and> get_actor ex_registry (ex_acts ! 2) False = Inl InvalidOptions
   \<and> (\<exists>e'. BaseGroupActor_init ex_registry ''group.Sync'' ''deploy''
              [(''acts'', JList ex_acts)] False = Inl e')"
proof -
  have a: "map_of [(''acts'', JList ex_acts)] ''acts'' = Some (JList ex_acts)" by simp
  have b: "2 < length ex_acts" by (simp add: ex_acts_def)
  from C8_invalid_child_fails_construction[OF a b ex_third_invalid] a b ex_third_invalid
  show ?thesis by blast
qed

section \<open>Properties of the concurrent group\<close>

lemma is_done_traced: "is_done (traced i fut) = is_done fut"
  by (cases fut) auto

lemma length_traced_list: "length (traced_list k futs) = length futs"
  by (induction futs arbitrary: k) auto

lemma nth_traced_list: "i < length futs \<Longrightarrow> traced_list k futs ! i = traced (k + i) (futs ! i)"
  by (induction futs arbitrary: k i) (auto simp: nth_Cons split: nat.splits)

lemma traced_list_update:
  "i < length futs \<Longrightarrow> (traced_list k futs)[i := traced (k + i) fut] = traced_list k (futs[i := fut])"
proof (induction futs arbitrary: k i)
  case Nil
  then show ?case by simp
next
  case (Cons a futs)
  show ?case
  proof (cases i)
    case 0
    then show ?thesis by simp
  next
    case (Suc j)
    with Cons.prems Cons.IH[of j "Suc k"] show ?thesis by simp
  qed
qed

lemma traced_list_append:
  "traced_list k (xs @ ys) = traced_list k xs @ traced_list (k + length xs) ys"
  by (induction xs arbitrary: k) auto

lemma all_done_traced_list: "list_all is_done (traced_list k futs) = list_all is_done futs"
  by (induction futs arbitrary: k) (auto simp: is_done_traced)

lemma start_all_traced:
  "start_all (traced_from k acts) ex (ev, w) = (tf, (ev', w')) \<Longrightarrow>
   \<exists>futs new. tf = ex @ traced_list k futs \<and> length futs = length acts \<and> ev' = ev @ new
      \<and> filter is_Started new = map Started [k..<k + length acts]
      \<and> (\<forall>i. count_list new (Completed i)
              = (if k \<le> i \<and> i < k + length acts \<and> is_done (futs ! (i - k)) then 1 else 0))"
proof (induction acts arbitrary: k ex ev w)
  case Nil
  then show ?case by simp
next
  case (Cons act acts)
  obtain w1 fut where e: "execute act w = (w1, fut)" by (cases "execute act w")
  define first where "first = Started k # (if is_done fut then [Completed k] else [])"
  from Cons.prems e have
    "start_all (traced_from (Suc k) acts) (ex @ [traced k fut]) (ev @ first, w1) = (tf, (ev', w'))"
    by (simp add: traced_actor_def first_def)
  from Cons.IH[OF this] obtain futs new where
    IH: "tf = (ex @ [traced k fut]) @ traced_list (Suc k) futs" "length futs = length acts"
        "ev' = (ev @ first) @ new"
        "filter is_Started new = map Started [Suc k..<Suc k + length acts]"
        "\<forall>i. count_list new (Completed i)
              = (if Suc k \<le> i \<and> i < Suc k + length acts \<and> is_done (futs ! (i - Suc k)) then 1 else 0)"
    by blast
  have 1: "tf = ex @ traced_list k (fut # futs)" using IH(1) by simp
  have 2: "length (fut # futs) = length (act # acts)" using IH(2) by simp
  have 3: "ev' = ev @ (first @ new)" using IH(3) by simp
  have 4: "filter is_Started (first @ new) = map Started [k..<k + length (act # acts)]"
    using IH(4) by (simp add: first_def upt_conv_Cons del: upt_Suc)
  have 5: "\<forall>i. count_list (first @ new) (Completed i)
          = (if k \<le> i \<and> i < k + length (act # acts) \<and> is_done ((fut # futs) ! (i - k)) then 1 else 0)"
  proof
    fix i
    show "count_list (first @ new) (Completed i)
          = (if k \<le> i \<and> i < k + length (act # acts) \<and> is_done ((fut # futs) ! (i - k)) then 1 else 0)"
    proof (cases "i = k")
      case True
      then show ?thesis using IH(5) by (simp add: first_def)
    next
      case False
      then have "(fut # futs) ! (i - k) = futs ! (i - Suc k)" if "k \<le> i"
      proof -
        from that False obtain m where "i - k = Suc m" by (cases "i - k") auto
        moreover from this have "i - Suc k = m" by simp
        ultimately show ?thesis by simp
      qed
      with False show ?thesis using IH(5) by (auto simp: first_def)
    qed
  qed
  from 1 2 3 4 5 show ?case by blast
qed

lemma pending_position_valid:
  assumes "\<not> list_all is_done futs"
  shows "pending_positions futs ! (c mod length (pending_positions futs)) < length futs
       \<and> \<not> is_done (futs ! (pending_positions futs ! (c mod length (pending_positions futs))))"
proof -
  from assms have "pending_positions futs \<noteq> []" by (simp add: pending_positions_Nil)
  then have "pending_positions futs ! (c mod length (pending_positions futs)) \<in> set (pending_positions futs)"
    by simp
  then show ?thesis using pending_positions_bound by blast
qed

lemma wait_all_traced:
  "(\<forall>i. count_list ev (Completed i) = (if i < length futs \<and> is_done (futs ! i) then 1 else 0)) \<Longrightarrow>
   wait_all sched (traced_list 0 futs) (ev, w) = Some (res, (ev', w')) \<Longrightarrow>
   (\<exists>later. ev' = ev @ later \<and> list_all is_Completed later)
   \<and> (\<forall>i<length futs. count_list ev' (Completed i) = 1)"
proof (induction sched arbitrary: futs ev w)
  case Nil
  then have d: "list_all is_done futs" and "ev' = ev"
    by (auto simp: all_done_traced_list split: if_splits)
  with Nil.prems(1) show ?case by (auto simp: list_all_length)
next
  case (Cons c sched)
  show ?case
  proof (cases "list_all is_done futs")
    case True
    with Cons.prems(2) have "ev' = ev" by (simp add: all_done_traced_list)
    with True Cons.prems(1) show ?thesis by (auto simp: list_all_length)
  next
    case False
    let ?tf = "traced_list 0 futs"
    define i where "i = pending_positions ?tf ! (c mod length (pending_positions ?tf))"
    from False have nd: "\<not> list_all is_done ?tf" by (simp add: all_done_traced_list)
    from pending_position_valid[OF nd, of c] have i: "i < length futs" and p: "\<not> is_done (?tf ! i)"
      by (simp_all add: i_def length_traced_list)
    from i p have "\<not> is_done (futs ! i)" by (simp add: nth_traced_list is_done_traced)
    then obtain f k where fi: "futs ! i = Pending f k" by (cases "futs ! i") auto
    define ev1 where "ev1 = (if is_done (k w) then ev @ [Completed i] else ev)"
    have r: "resume i ?tf (ev, w) = (traced_list 0 (futs[i := k w]), (ev1, f w))"
      using i fi traced_list_update[of i futs 0 "k w"]
      by (simp add: resume_def nth_traced_list ev1_def)
    from Cons.prems(2) nd r have run:
      "wait_all sched (traced_list 0 (futs[i := k w])) (ev1, f w) = Some (res, (ev', w'))"
      by (simp add: Let_def i_def)
    have inv: "\<forall>j. count_list ev1 (Completed j)
                 = (if j < length (futs[i := k w]) \<and> is_done (futs[i := k w] ! j) then 1 else 0)"
    proof
      fix j
      show "count_list ev1 (Completed j)
                 = (if j < length (futs[i := k w]) \<and> is_done (futs[i := k w] ! j) then 1 else 0)"
      proof (cases "j = i")
        case True
        with Cons.prems(1) i fi show ?thesis by (simp add: ev1_def)
      next
        case False
        with Cons.prems(1) show ?thesis by (simp add: ev1_def)
      qed
    qed
    from Cons.IH[OF inv run] obtain later where
      l: "ev' = ev1 @ later" "list_all is_Completed later"
      and c1: "\<forall>j<length (futs[i := k w]). count_list ev' (Completed j) = 1"
      by blast
    have "ev' = ev @ ((if is_done (k w) then [Completed i] else []) @ later)"
      using l(1) by (simp add: ev1_def)
    moreover have "list_all is_Completed ((if is_done (k w) then [Completed i] else []) @ later)"
      using l(2) by simp
    ultimately show ?thesis using c1 by auto
  qed
qed

lemma run_first_pending_any:
  "i < length futs \<Longrightarrow> futs ! i = fut \<Longrightarrow> \<forall>j<i. is_done (futs ! j) \<Longrightarrow>
   \<exists>n w' r. \<forall>sched. wait_all (replicate n 0 @ sched) futs w = wait_all sched (futs[i := Done r]) w'"
proof (induction fut arbitrary: futs w)
  case (Done r)
  have "futs[i := Done r] = futs" using Done by (metis list_update_id)
  then have "\<forall>sched. wait_all (replicate 0 0 @ sched) futs w = wait_all sched (futs[i := Done r]) w"
    by simp
  then show ?case by blast
next
  case (Pending f k)
  let ?futs = "futs[i := k w]"
  have 0: "k w \<in> range k" by simp
  have 1: "i < length ?futs" using Pending.prems by simp
  have 2: "?futs ! i = k w" using Pending.prems by simp
  have 3: "\<forall>j<i. is_done (?futs ! j)" using Pending.prems by simp
  from Pending.IH[OF 0 1 2 3, of "f w"] obtain n w' r where
    n: "\<forall>sched. wait_all (replicate n 0 @ sched) ?futs (f w) = wait_all sched (?futs[i := Done r]) w'"
    by blast
  have "\<forall>sched. wait_all (replicate (Suc n) 0 @ sched) futs w = wait_all sched (futs[i := Done r]) w'"
  proof
    fix sched
    have "wait_all (replicate (Suc n) 0 @ sched) futs w = wait_all (replicate n 0 @ sched) ?futs (f w)"
      using wait_all_step0[of i futs f k "replicate n 0 @ sched" w] Pending.prems by simp
    with n show "wait_all (replicate (Suc n) 0 @ sched) futs w = wait_all sched (futs[i := Done r]) w'"
      by simp
  qed
  then show ?case by blast
qed

lemma wait_all_returns_any_from:
  "i \<le> length futs \<Longrightarrow> \<forall>j<i. is_done (futs ! j) \<Longrightarrow> \<exists>sched. wait_all sched futs w \<noteq> None"
proof (induction "length futs - i" arbitrary: i futs w)
  case 0
  then have "list_all is_done futs" by (auto simp: list_all_length)
  then have "wait_all [] futs w \<noteq> None" by simp
  then show ?case by blast
next
  case (Suc d)
  then have i: "i < length futs" by simp
  from run_first_pending_any[OF i refl Suc.prems(2), of w] obtain n w1 r where
    n: "\<forall>sched. wait_all (replicate n 0 @ sched) futs w = wait_all sched (futs[i := Done r]) w1"
    by blast
  let ?futs = "futs[i := Done r]"
  have b: "Suc i \<le> length ?futs" using i by simp
  have c: "\<forall>j<Suc i. is_done (?futs ! j)" using Suc.prems(2) i by (auto simp: nth_list_update less_Suc_eq)
  have d: "d = length ?futs - Suc i" using Suc.hyps(2) by simp
  from Suc.hyps(1)[OF d b c, of w1] obtain sched where "wait_all sched ?futs w1 \<noteq> None"
    by blast
  with n have "wait_all (replicate n 0 @ sched) futs w \<noteq> None" by simp
  then show ?case by blast
qed

lemma wait_all_returns_any: "\<exists>sched. wait_all sched futs w \<noteq> None"
  using wait_all_returns_any_from[of 0 futs w] by simp

text \<open>
  The loop that calls the children only calls them: it keeps each future as it was handed
  back, and the journal it leaves is the journal of the bare calls.
\<close>

lemma start_all_calls_only:
  "start_all (traced_from k acts) ex (ev, w) = (tf, (ev', w')) \<Longrightarrow>
   tf = ex @ traced_list k (handed_back acts w) \<and> ev' = ev @ calls_journal k (handed_back acts w)"
proof (induction acts arbitrary: k ex ev w)
  case Nil
  then show ?case by simp
next
  case (Cons act acts)
  obtain w1 fut where e: "execute act w = (w1, fut)" by (cases "execute act w")
  define first where "first = Started k # (if is_done fut then [Completed k] else [])"
  from Cons.prems e have
    "start_all (traced_from (Suc k) acts) (ex @ [traced k fut]) (ev @ first, w1) = (tf, (ev', w'))"
    by (simp add: traced_actor_def first_def)
  from Cons.IH[OF this] e show ?case by (simp add: first_def)
qed

text \<open>
  Claim C3. An \<open>Async\<close> group calls every child before it waits for any, waits until
  every child has finished, and lets every child finish whatever happens to the others.
  With the children wrapped to keep a journal, and \<open>ev0\<close> the journal at the end of the
  loop that calls them: \<open>ev0\<close> is the journal of the bare calls, that is, the start of
  every child, once each, in order, with the completion of a child only where its
  \<open>execute\<close> handed back a future already resolved, so that no suspended child has
  been waited for when the last child is called; the group returns under some schedule;
  and under every schedule under which it returns, whether with the list of results or
  with the exception of a child, the journal is \<open>ev0\<close> followed by completions only, and
  holds the completion of every child exactly once.
\<close>

theorem C3_async_starts_all_then_waits_for_all:
  assumes "snd (start_all (traced_all actions) [] ([], w)) = (ev0, w0)"
  shows "ev0 = calls_journal 0 (handed_back actions w)
       \<and> filter is_Started ev0 = map Started [0..<length actions]
       \<and> (\<exists>sched. Async_run_actions sched (traced_all actions) ([], w) \<noteq> None)
       \<and> (\<forall>sched res ev w'.
            Async_run_actions sched (traced_all actions) ([], w) = Some (res, (ev, w')) \<longrightarrow>
              (\<exists>later. ev = ev0 @ later \<and> list_all is_Completed later)
            \<and> (\<forall>i<length actions. count_list ev (Completed i) = 1))"
proof -
  obtain tf where st: "start_all (traced_from 0 actions) [] ([], w) = (tf, (ev0, w0))"
    using assms by (cases "start_all (traced_from 0 actions) [] ([], w)") (auto simp: traced_all_def)
  from start_all_calls_only[OF st] have calls: "ev0 = calls_journal 0 (handed_back actions w)"
    by simp
  from start_all_traced[OF st] obtain futs where
    tf: "tf = traced_list 0 futs" and len: "length futs = length actions"
    and started: "filter is_Started ev0 = map Started [0..<length actions]"
    and counts: "\<forall>i. count_list ev0 (Completed i)
                   = (if i < length futs \<and> is_done (futs ! i) then 1 else 0)"
    by auto
  have run: "Async_run_actions sched (traced_all actions) ([], w) = wait_all sched tf (ev0, w0)"
    for sched
    using st by (simp add: Async_run_actions_def traced_all_def)
  have "\<exists>sched. wait_all sched tf (ev0, w0) \<noteq> None" by (rule wait_all_returns_any)
  then have ex: "\<exists>sched. Async_run_actions sched (traced_all actions) ([], w) \<noteq> None"
    using run by simp
  have fin: "(\<exists>later. ev = ev0 @ later \<and> list_all is_Completed later)
            \<and> (\<forall>i<length actions. count_list ev (Completed i) = 1)"
    if "Async_run_actions sched (traced_all actions) ([], w) = Some (res, (ev, w'))"
    for sched res ev w'
  proof -
    from that run tf have "wait_all sched (traced_list 0 futs) (ev0, w0) = Some (res, (ev, w'))"
      by simp
    from wait_all_traced[OF counts this] len show ?thesis by simp
  qed
  from calls started ex fin show ?thesis by blast
qed

lemma ex_started:
  "snd (start_all (traced_all [ex_raising, ex_slow]) [] ([], 1)) = ([Started 0, Started 1], 1)"
  by (simp add: traced_all_def traced_actor_def ex_raising_def ex_slow_def)

lemma ex_async_run:
  "Async_run_actions [0, 0] (traced_all [ex_raising, ex_slow]) ([], 1)
   = Some (Inl UnrecoverableActorFailure, ([Started 0, Started 1, Completed 0, Completed 1], 20))"
  by (simp add: Async_run_actions_def traced_all_def traced_actor_def ex_raising_def ex_slow_def
        pending_positions_def resume_def Let_def)

theorem C3_async_starts_all_then_waits_for_all_witness:
  "snd (start_all (traced_all [ex_raising, ex_slow]) [] ([], 1)) = ([Started 0, Started 1], 1)
   \<and> Async_run_actions [0, 0] (traced_all [ex_raising, ex_slow]) ([], 1)
       = Some (Inl UnrecoverableActorFailure, ([Started 0, Started 1, Completed 0, Completed 1], 20))
   \<and> [Started 0, Started 1] = calls_journal 0 (handed_back [ex_raising, ex_slow] 1)
   \<and> filter is_Started [Started 0, Started 1] = map Started [0..<length [ex_raising, ex_slow]]
   \<and> count_list [Started 0, Started 1, Completed 0, Completed 1] (Completed 0) = 1
   \<and> count_list [Started 0, Started 1, Completed 0, Completed 1] (Completed 1) = 1"
proof -
  from C3_async_starts_all_then_waits_for_all[OF ex_started] ex_async_run
  have c: "[Started 0, Started 1] = calls_journal 0 (handed_back [ex_raising, ex_slow] 1)"
    and a: "filter is_Started [Started 0, Started 1] = map Started [0..<length [ex_raising, ex_slow]]"
    and b: "\<forall>i<length [ex_raising, ex_slow].
              count_list [Started 0, Started 1, Completed 0, Completed 1] (Completed i) = 1"
    by blast+
  from b have "count_list [Started 0, Started 1, Completed 0, Completed 1] (Completed 0) = 1"
    and "count_list [Started 0, Started 1, Completed 0, Completed 1] (Completed 1) = 1"
    by (metis length_Cons less_Suc_eq zero_less_Suc One_nat_def list.size(3))+
  with a c ex_started ex_async_run show ?thesis by blast
qed

section \<open>Properties of the sequential group\<close>

text \<open>
  \<open>await\<close> runs a future to completion, and a wrapped child that is called and awaited
  has noted its start and its completion by the time the caller goes on.
\<close>

lemma finishes_await: "finishes fut w r w' \<Longrightarrow> await fut w = (r, w')"
  by (induction rule: finishes.induct) auto

lemma finishes_await_traced:
  "finishes fut w r w' \<Longrightarrow>
   await (traced i fut) (ev, w) = (r, (if is_done fut then ev else ev @ [Completed i], w'))"
proof (induction arbitrary: ev rule: finishes.induct)
  case (already r w)
  show ?case by simp
next
  case (resumed k w f r w')
  show ?case
  proof (cases "is_done (k w)")
    case True
    with resumed.IH[of "ev @ [Completed i]"] show ?thesis by simp
  next
    case False
    with resumed.IH[of ev] show ?thesis by simp
  qed
qed

lemma finishes_as_await: "finishes fut w (fst (await fut w)) (snd (await fut w))"
  by (induction fut arbitrary: w) (auto intro: finishes.intros)

lemma call_and_wait_finishes:
  "execute act w = (w0, fut) \<Longrightarrow> finishes fut w0 r w1 \<Longrightarrow> call_and_wait act w = (r, w1)"
  by (simp add: call_and_wait_def finishes_await)

lemma call_and_wait_traced:
  assumes "execute act w = (w0, fut)" "finishes fut w0 r w1"
  shows "call_and_wait (traced_actor i act) (ev, w) = (r, (ev @ [Started i, Completed i], w1))"
  using assms finishes_await_traced[OF assms(2), of i "ev @ Started i # (if is_done fut then [Completed i] else [])"]
  by (simp add: call_and_wait_def traced_actor_def)

lemma Sync_loop_in_order:
  "one_after_another acts w rs w' \<Longrightarrow>
   Sync_loop acts acc (lg, w) = (Inr (acc @ rs), (lg @ begin_finish acts rs, w'))"
proof (induction arbitrary: acc lg rule: one_after_another.induct)
  case (none_left w)
  show ?case by simp
next
  case (next_child act w w0 fut r w1 acts rs w')
  from call_and_wait_finishes[OF next_child.hyps(1,2)] next_child.IH show ?case by simp
qed

lemma Sync_loop_traced_in_order:
  "one_after_another acts w rs w' \<Longrightarrow>
   Sync_loop (traced_from i acts) acc (lg, (ev, w))
   = (Inr (acc @ rs), (lg @ begin_finish acts rs, (ev @ in_turn i (length acts), w')))"
proof (induction arbitrary: acc lg ev i rule: one_after_another.induct)
  case (none_left w)
  show ?case by simp
next
  case (next_child act w w0 fut r w1 acts rs w')
  have d: "desc (traced_actor i act) = desc act" by (simp add: traced_actor_def)
  from call_and_wait_traced[OF next_child.hyps(1,2), of i ev]
       next_child.IH[of "Suc i" "acc @ [r]" "lg @ [Beginning (desc act), Finished (desc act) r]"
                        "ev @ [Started i, Completed i]"]
  show ?case by (simp add: d)
qed

lemma ex_in_turn:
  "one_after_another [ex_failing, ex_twice] 0 [PBool False, PBool True] 20"
proof -
  have 1: "execute ex_failing 0 = (1, snd (execute ex_failing 0))" by (simp add: ex_failing_def)
  have 2: "finishes (snd (execute ex_failing 0)) 1 (Inr (PBool False)) 1"
    using finishes_as_await[of "snd (execute ex_failing 0)" 1] by (simp add: ex_failing_def)
  have 3: "execute ex_twice 1 = (1, snd (execute ex_twice 1))" by (simp add: ex_twice_def)
  have 4: "finishes (snd (execute ex_twice 1)) 1 (Inr (PBool True)) 20"
    using finishes_as_await[of "snd (execute ex_twice 1)" 1] by (simp add: ex_twice_def)
  show ?thesis
    by (rule next_child[OF 1 2] next_child[OF 3 4] none_left)+
qed

text \<open>
  Claim C2. A \<open>Sync\<close> group runs each child once, in declaration order, each one to
  its end before the next is called, and goes on after a child that returned
  \<open>False\<close>. Whenever the children, each called in the world the one before left and
  run to completion, return the values \<open>rs\<close> and leave the world \<open>w'\<close>, the group
  returns exactly \<open>rs\<close>, leaves exactly \<open>w'\<close>, and has logged for each child in turn
  its beginning and its end; and with the children wrapped to keep a journal, the journal
  of the run is start and completion of the first child, then start and completion of the
  second, and so on to the last: no child starts before the one before has completed.
\<close>

theorem C2_sync_runs_every_child_in_order:
  assumes "one_after_another actions w rs w'"
  shows "Sync_run_actions actions (lg, w) = (Inr rs, (lg @ begin_finish actions rs, w'))
       \<and> Sync_run_actions (traced_all actions) (lg, ([], w))
           = (Inr rs, (lg @ begin_finish actions rs, (in_turn 0 (length actions), w')))"
  using Sync_loop_in_order[OF assms, of "[]" lg]
        Sync_loop_traced_in_order[OF assms, of 0 "[]" lg "[]"]
  by (simp add: Sync_run_actions_def traced_all_def)

theorem C2_sync_runs_every_child_in_order_witness:
  "one_after_another [ex_failing, ex_twice] 0 [PBool False, PBool True] 20
   \<and> Sync_run_actions (traced_all [ex_failing, ex_twice]) ([], ([], 0))
       = (Inr [PBool False, PBool True],
          ([Beginning ''stop old release'', Finished ''stop old release'' (PBool False),
            Beginning ''wait for release'', Finished ''wait for release'' (PBool True)],
           ([Started 0, Completed 0, Started 1, Completed 1], 20)))"
  using C2_sync_runs_every_child_in_order[OF ex_in_turn, of "[]"] ex_in_turn
  by (simp add: ex_failing_def ex_twice_def numeral_2_eq_2)

text \<open>
  A child that raises is not a child that returns \<open>False\<close>: the exception leaves the
  loop, and the children after it are never started.
\<close>

lemma Sync_stops_at_raising_child:
  "Sync_run_actions (traced_all [ex_raising, ex_failing]) ([], ([], 0))
   = (Inl UnrecoverableActorFailure, ([Beginning ''register instance''], ([Started 0, Completed 0], 1)))"
  by (simp add: Sync_run_actions_def traced_all_def traced_actor_def call_and_wait_def
        ex_raising_def ex_failing_def)

end
